theory Spec2Isabelle
  imports Main
begin

section \<open>The SPI core of \<^verbatim>\<open>src/spi.py\<close> as a synchronous machine\<close>

text \<open>
  The class \<^verbatim>\<open>SPI\<close> is a migen module: a set of registers (\<^verbatim>\<open>self.sync\<close>),
  combinatorial signals (\<^verbatim>\<open>self.comb\<close>) and one finite state machine whose
  clock enable is the divider's tick. One call of \<open>step\<close> below is one cycle of the
  device clock: every register reads the values of the cycle before, and within one
  \<^verbatim>\<open>sync\<close> list a later assignment to a register overrides an earlier one.
\<close>

subsection \<open>Parameters and register widths\<close>

record SPIParams =
  channels :: nat
  data_width :: nat
  clk_width :: nat

text \<open>The width of \<^verbatim>\<open>dataSPI\<close> and of \<^verbatim>\<open>sr_data\<close>.\<close>

definition sr_width :: "SPIParams \<Rightarrow> nat" where
  "sr_width p = data_width p * channels p"

text \<open>
  \<^verbatim>\<open>Signal(max=m)\<close> is wide enough for \<open>m - 1\<close>: its width is the bit length of
  \<open>m - 1\<close>, and one bit for the value 0.
\<close>

fun bit_length :: "nat \<Rightarrow> nat" where
  "bit_length n = (if n = 0 then 0 else Suc (bit_length (n div 2)))"

declare bit_length.simps [simp del]

definition bits_for :: "nat \<Rightarrow> nat" where
  "bits_for n = (if n = 0 then 1 else bit_length n)"

definition clk_counter_width :: "SPIParams \<Rightarrow> nat" where
  "clk_counter_width p = bits_for (clk_width p - 1)"

definition bits_width :: "SPIParams \<Rightarrow> nat" where
  "bits_width p = bits_for (data_width p * channels p)"

definition word_counter_width :: "SPIParams \<Rightarrow> nat" where
  "word_counter_width p = bits_for (channels p)"

subsection \<open>Building the core\<close>

text \<open>
  \<^verbatim>\<open>SPI.__init__\<close> declares its signals before it checks its parameters, and migen
  checks every declaration: \<^verbatim>\<open>Signal(n)\<close> rejects a width \<open>n\<close> that is not positive
  (\<open>WidthError\<close> stands for the exception migen raises there), and
  \<^verbatim>\<open>Signal(max=m)\<close> makes its bound inclusive (\<^verbatim>\<open>max -= 1\<close>) and asserts
  \<^verbatim>\<open>min < max\<close> with \<^verbatim>\<open>min = 0\<close>, so it raises \<^verbatim>\<open>AssertionError\<close> unless
  \<open>2 \<le> m\<close>. On success it has the width of \<open>m - 1\<close>.
\<close>

datatype error = AssertionError | WidthError

definition signal_width :: "nat \<Rightarrow> error + nat" where
  "signal_width n = (if 0 < n then Inr n else Inl WidthError)"

definition signal_max :: "nat \<Rightarrow> error + nat" where
  "signal_max m = (if 0 < m - 1 then Inr (bits_for (m - 1)) else Inl AssertionError)"

text \<open>
  The declarations of \<^verbatim>\<open>SPI.__init__\<close> that can fail, in the order of the source
  (lines 14, 31, 34 and 41), then its own \<^verbatim>\<open>assert params.clk_width >= 1\<close> (line 45).
  The result is the widths of \<^verbatim>\<open>sr_data\<close>, \<^verbatim>\<open>clk_counter\<close>, \<^verbatim>\<open>bits\<close> and
  \<^verbatim>\<open>word_counter\<close>.
\<close>

record spi_widths =
  w_sr_data :: nat
  w_clk_counter :: nat
  w_bits :: nat
  w_word_counter :: nat

definition SPI_init :: "SPIParams \<Rightarrow> error + spi_widths" where
  "SPI_init p =
     (case signal_width (data_width p * channels p) of Inl e \<Rightarrow> Inl e | Inr ws \<Rightarrow>
      (case signal_max (clk_width p) of Inl e \<Rightarrow> Inl e | Inr wc \<Rightarrow>
       (case signal_max (data_width p * channels p + 1) of Inl e \<Rightarrow> Inl e | Inr wb \<Rightarrow>
        (case signal_max (channels p + 1) of Inl e \<Rightarrow> Inl e | Inr ww \<Rightarrow>
         (if 1 \<le> clk_width p
          then Inr \<lparr>w_sr_data = ws, w_clk_counter = wc, w_bits = wb, w_word_counter = ww\<rparr>
          else Inl AssertionError)))))"

text \<open>A configuration is valid when the core can be built with it.\<close>

definition valid :: "SPIParams \<Rightarrow> bool" where
  "valid p = (case SPI_init p of Inl e \<Rightarrow> False | Inr w \<Rightarrow> True)"

text \<open>\<open>x - 1\<close> assigned to a register of \<open>w\<close> bits: 0 wraps to \<open>2 ^ w - 1\<close>.\<close>

definition dec :: "nat \<Rightarrow> nat \<Rightarrow> nat" where
  "dec w x = (x + 2 ^ w - 1) mod 2 ^ w"

subsection \<open>Inputs and registers\<close>

datatype fsm = IDLE | SETUP | HOLD | DELAY | BUSY_LOW | BUSY_HIGH

text \<open>The inputs of one cycle: the signals the module reads and never drives.\<close>

record spi_inputs =
  start :: bool
  init :: bool
  busy :: bool
  dataSPI :: nat

text \<open>The registers. \<open>fsm_state\<close> is the state register of the migen \<^verbatim>\<open>FSM\<close>.\<close>

record spi_state =
  fsm_state :: fsm
  clk_counter :: nat
  sync_init :: bool
  initialized :: bool
  bits :: nat
  word_counter :: nat
  sr_data :: nat

definition reset_state :: spi_state where
  "reset_state = \<lparr>fsm_state = IDLE, clk_counter = 0, sync_init = False,
     initialized = False, bits = 0, word_counter = 0, sr_data = 0\<rparr>"

subsection \<open>Combinatorial signals\<close>

definition clk_cnt_done :: "spi_state \<Rightarrow> bool" where
  "clk_cnt_done s = (clk_counter s = 0)"

text \<open>\<^verbatim>\<open>init_latch.eq(comb_init | sync_init & ~self.initialized)\<close>, with \<^verbatim>\<open>comb_init = init\<close>.\<close>

definition init_latch :: "spi_state \<Rightarrow> spi_inputs \<Rightarrow> bool" where
  "init_latch s i = (init i \<or> (sync_init s \<and> \<not> initialized s))"

text \<open>
  What the FSM drives in one cycle. A signal that the active state does not assign has
  its reset value: 0 for \<^verbatim>\<open>ready\<close>, \<^verbatim>\<open>sclk\<close>, \<^verbatim>\<open>cnt_load\<close> and \<^verbatim>\<open>data_load\<close>,
  1 for \<^verbatim>\<open>syncr\<close> (\<^verbatim>\<open>ZotinoPads\<close> in \<^verbatim>\<open>src/pads.py\<close> declares it with
  \<^verbatim>\<open>reset = 1\<close>); the next state defaults to the present one.
\<close>

record fsm_out =
  ready :: bool
  syncr :: bool
  sclk :: bool
  cnt_load :: bool
  data_load :: bool
  next_state :: fsm

definition fsm_default :: "spi_state \<Rightarrow> fsm_out" where
  "fsm_default s = \<lparr>ready = False, syncr = True, sclk = False, cnt_load = False,
     data_load = False, next_state = fsm_state s\<rparr>"

definition fsm_act :: "spi_state \<Rightarrow> spi_inputs \<Rightarrow> fsm_out" where
  "fsm_act s i =
     (let d = fsm_default s in
      case fsm_state s of
        IDLE \<Rightarrow>
          (let d = d\<lparr>ready := True, syncr := True\<rparr> in
           if start i \<or> init i
           then d\<lparr>cnt_load := True, next_state := SETUP, data_load := True\<rparr>
           else d)
      | SETUP \<Rightarrow>
          (let d = d\<lparr>syncr := False, cnt_load := True, sclk := True\<rparr> in
           if bits s = 0 then d\<lparr>next_state := DELAY\<rparr> else d\<lparr>next_state := HOLD\<rparr>)
      | HOLD \<Rightarrow> d\<lparr>syncr := False, cnt_load := True, next_state := SETUP\<rparr>
      | DELAY \<Rightarrow> d\<lparr>syncr := False, next_state := BUSY_LOW\<rparr>
      | BUSY_LOW \<Rightarrow>
          (let d = d\<lparr>syncr := True\<rparr> in
           if \<not> busy i then d\<lparr>next_state := BUSY_HIGH\<rparr> else d)
      | BUSY_HIGH \<Rightarrow>
          (if busy i \<and> word_counter s = 0 then d\<lparr>next_state := IDLE\<rparr>
           else if busy i then d\<lparr>next_state := SETUP, cnt_load := True\<rparr>
           else d))"

text \<open>\<^verbatim>\<open>fsm.ongoing\<close> and \<^verbatim>\<open>fsm.before_leaving\<close> of the migen FSM.\<close>

definition ongoing :: "fsm \<Rightarrow> spi_state \<Rightarrow> bool" where
  "ongoing st s = (fsm_state s = st)"

definition before_leaving :: "fsm \<Rightarrow> spi_state \<Rightarrow> spi_inputs \<Rightarrow> bool" where
  "before_leaving st s i = (fsm_state s = st \<and> next_state (fsm_act s i) \<noteq> st)"

text \<open>\<^verbatim>\<open>pads.sdi.eq(sr_data[-1])\<close>: the most significant bit of the shift register.\<close>

definition sdi :: "SPIParams \<Rightarrow> spi_state \<Rightarrow> bool" where
  "sdi p s = bit (sr_data s) (sr_width p - 1)"

text \<open>\<^verbatim>\<open>Cat(0, sr_data[:-1])\<close>: one place to the left, a 0 enters, the top bit leaves.\<close>

definition shift_left :: "SPIParams \<Rightarrow> nat \<Rightarrow> nat" where
  "shift_left p x = (2 * x) mod 2 ^ sr_width p"

text \<open>\<^verbatim>\<open>self.dataSPI[:params.data_width] << params.data_width*(params.channels-1)\<close>\<close>

definition init_word :: "SPIParams \<Rightarrow> nat \<Rightarrow> nat" where
  "init_word p d = (d mod 2 ^ data_width p) * 2 ^ (data_width p * (channels p - 1))"

subsection \<open>One cycle of the device clock\<close>

text \<open>The clock divider (the first \<^verbatim>\<open>self.sync\<close> list).\<close>

definition clk_counter_next :: "SPIParams \<Rightarrow> nat \<Rightarrow> bool \<Rightarrow> nat" where
  "clk_counter_next p c load =
     (if c = 0 then (if load then clk_width p - 1 else c)
      else dec (clk_counter_width p) c)"

text \<open>
  The datapath (the last \<^verbatim>\<open>self.sync\<close> list, inside \<^verbatim>\<open>If(fsm.ce, ...)\<close>): its five
  \<^verbatim>\<open>If\<close> statements in the order of the source; \<open>s\<close> is the state of the cycle before,
  \<open>n\<close> collects the assignments. The constants assigned (\<open>data_width - 1\<close>, 1,
  \<open>channels\<close>, and \<open>clk_width - 1\<close> in the divider) fit their registers whenever the
  parameters are valid; the decrements wrap at the width of the register.
\<close>

definition datapath :: "SPIParams \<Rightarrow> spi_state \<Rightarrow> spi_inputs \<Rightarrow> spi_state \<Rightarrow> spi_state" where
  "datapath p s i n0 =
     (let n = n0;
          n = (if before_leaving HOLD s i
               then n\<lparr>bits := dec (bits_width p) (bits s),
                      sr_data := shift_left p (sr_data s)\<rparr>
               else n);
          n = (if ongoing IDLE s
               then (if init_latch s i \<and> \<not> initialized s
                     then n\<lparr>word_counter := 1\<rparr>
                     else n\<lparr>word_counter := channels p\<rparr>)\<lparr>bits := data_width p - 1\<rparr>
               else n);
          n = (if before_leaving BUSY_HIGH s i
               then (let n = n\<lparr>bits := data_width p - 1\<rparr> in
                     if word_counter s = 0 \<and> init_latch s i
                     then n\<lparr>initialized := True\<rparr> else n)
               else n);
          n = (if ongoing DELAY s
               then n\<lparr>word_counter := dec (word_counter_width p) (word_counter s),
                      sr_data := shift_left p (sr_data s)\<rparr>
               else n);
          n = (if data_load (fsm_act s i)
               then (if init_latch s i
                     then n\<lparr>sr_data := init_word p (dataSPI i)\<rparr>
                     else n\<lparr>sr_data := dataSPI i mod 2 ^ sr_width p\<rparr>)
               else n)
      in n)"

definition step :: "SPIParams \<Rightarrow> spi_state \<Rightarrow> spi_inputs \<Rightarrow> spi_state" where
  "step p s i =
     (let ce = clk_cnt_done s;
          n = s\<lparr>clk_counter := clk_counter_next p (clk_counter s) (cnt_load (fsm_act s i))\<rparr>;
          n = (if init i then n\<lparr>sync_init := True\<rparr> else n);
          n = (if ce then n\<lparr>fsm_state := next_state (fsm_act s i)\<rparr> else n);
          n = (if ce then datapath p s i n else n)
      in n)"

subsection \<open>Runs\<close>

text \<open>The state after a list of cycles, and the states the run goes through.\<close>

fun run :: "SPIParams \<Rightarrow> spi_state \<Rightarrow> spi_inputs list \<Rightarrow> spi_state" where
  "run p s [] = s"
| "run p s (i # is) = run p (step p s i) is"

fun visited :: "SPIParams \<Rightarrow> spi_state \<Rightarrow> spi_inputs list \<Rightarrow> spi_state list" where
  "visited p s [] = []"
| "visited p s (i # is) = s # visited p (step p s i) is"

subsection \<open>Channel slots and example values\<close>

text \<open>Slot \<open>k\<close> of a latch value: the \<open>data_width\<close> bits of channel \<open>k\<close>, slot 0 lowest.\<close>

definition slot :: "SPIParams \<Rightarrow> nat \<Rightarrow> nat \<Rightarrow> nat" where
  "slot p k x = (x div 2 ^ (data_width p * k)) mod 2 ^ data_width p"

definition req :: "bool \<Rightarrow> bool \<Rightarrow> bool \<Rightarrow> nat \<Rightarrow> spi_inputs" where
  "req st ini bsy d = \<lparr>start = st, init = ini, busy = bsy, dataSPI = d\<rparr>"

definition ex_params :: SPIParams where
  "ex_params = \<lparr>channels = 2, data_width = 3, clk_width = 4\<rparr>"

definition ex_state :: "fsm \<Rightarrow> nat \<Rightarrow> spi_state" where
  "ex_state st c = \<lparr>fsm_state = st, clk_counter = c, sync_init = False,
     initialized = False, bits = 1, word_counter = 2, sr_data = 44\<rparr>"

subsection \<open>The serial lines and what a device reads from them\<close>

text \<open>
  The three pads the core drives (\<^verbatim>\<open>ZotinoPads\<close>: \<^verbatim>\<open>sdi\<close>, \<^verbatim>\<open>syncr\<close>, \<^verbatim>\<open>sclk\<close>),
  cycle by cycle.
\<close>

record zotino_pads =
  pad_sdi :: bool
  pad_syncr :: bool
  pad_sclk :: bool

definition pads :: "SPIParams \<Rightarrow> spi_state \<Rightarrow> spi_inputs \<Rightarrow> zotino_pads" where
  "pads p s i = \<lparr>pad_sdi = sdi p s, pad_syncr = syncr (fsm_act s i),
     pad_sclk = sclk (fsm_act s i)\<rparr>"

fun wire :: "SPIParams \<Rightarrow> spi_state \<Rightarrow> spi_inputs list \<Rightarrow> zotino_pads list" where
  "wire p s [] = []"
| "wire p s (i # is) = pads p s i # wire p (step p s i) is"

text \<open>
  The device on the other side reads one bit on every falling edge of \<^verbatim>\<open>sclk\<close> (the
  comment of the SETUP state: the DAC reads the data on the falling edge): the bit that
  was on \<^verbatim>\<open>sdi\<close> before the edge. A rising edge of \<^verbatim>\<open>syncr\<close> ends the word.
\<close>

datatype event = Bit bool | EndWord

definition edge :: "zotino_pads \<Rightarrow> zotino_pads \<Rightarrow> event list" where
  "edge a b = (if pad_sclk a \<and> \<not> pad_sclk b then [Bit (pad_sdi a)] else []) @
              (if \<not> pad_syncr a \<and> pad_syncr b then [EndWord] else [])"

fun receive :: "zotino_pads list \<Rightarrow> event list" where
  "receive (a # b # rest) = edge a b @ receive (b # rest)"
| "receive _ = []"

text \<open>
  A list of inputs is one whole transfer from \<open>s\<close>: the FSM is back in IDLE after the
  last cycle and in no cycle between the first and the last.
\<close>

definition completes :: "SPIParams \<Rightarrow> spi_state \<Rightarrow> spi_inputs list \<Rightarrow> bool" where
  "completes p s is = (is \<noteq> [] \<and> fsm_state (run p s is) = IDLE \<and>
     list_all (\<lambda>t. fsm_state t \<noteq> IDLE) (tl (visited p s is)))"

text \<open>The \<open>w\<close> bits of \<open>v\<close>, most significant first, and the word as the device sees it.\<close>

definition msb_first :: "nat \<Rightarrow> nat \<Rightarrow> bool list" where
  "msb_first w v = map (\<lambda>k. bit v (w - 1 - k)) [0..<w]"

definition frame :: "nat \<Rightarrow> nat \<Rightarrow> event list" where
  "frame w v = map Bit (msb_first w v) @ [EndWord]"

text \<open>
  What the tick that leaves IDLE decides: the number of words of the transfer
  (\<^verbatim>\<open>word_counter\<close>) and the value loaded into the shift register.
\<close>

definition transfer_words :: "SPIParams \<Rightarrow> spi_state \<Rightarrow> spi_inputs \<Rightarrow> nat" where
  "transfer_words p s i = (if init_latch s i \<and> \<not> initialized s then 1 else channels p)"

definition loaded :: "SPIParams \<Rightarrow> spi_state \<Rightarrow> spi_inputs \<Rightarrow> nat" where
  "loaded p s i =
     (if init_latch s i then init_word p (dataSPI i) else dataSPI i mod 2 ^ sr_width p)"

subsection \<open>The invariant of a transfer\<close>

text \<open>
  During a transfer of \<open>nw\<close> words that loaded \<open>L\<close>, the shift register holds \<open>L\<close>
  shifted left by the number of bits already sent, which the two counters determine.
\<close>

definition shifted :: "SPIParams \<Rightarrow> nat \<Rightarrow> nat \<Rightarrow> nat" where
  "shifted p L k = (L * 2 ^ k) mod 2 ^ sr_width p"

definition position :: "SPIParams \<Rightarrow> nat \<Rightarrow> spi_state \<Rightarrow> nat" where
  "position p nw s = (nw - word_counter s) * data_width p +
     (case fsm_state s of SETUP \<Rightarrow> data_width p - 1 - bits s
        | HOLD \<Rightarrow> data_width p - 1 - bits s
        | DELAY \<Rightarrow> data_width p - 1 - bits s
        | _ \<Rightarrow> 0)"

definition in_transfer :: "SPIParams \<Rightarrow> nat \<Rightarrow> nat \<Rightarrow> spi_state \<Rightarrow> bool" where
  "in_transfer p nw L s = (sr_data s = shifted p L (position p nw s) \<and> word_counter s \<le> nw \<and>
     (case fsm_state s of
        IDLE \<Rightarrow> False
      | SETUP \<Rightarrow> 0 < word_counter s \<and> bits s < data_width p
      | HOLD \<Rightarrow> 0 < word_counter s \<and> 0 < bits s \<and> bits s < data_width p
      | DELAY \<Rightarrow> 0 < word_counter s \<and> bits s = 0
      | BUSY_LOW \<Rightarrow> word_counter s < nw
      | BUSY_HIGH \<Rightarrow> word_counter s < nw))"

text \<open>The events still to come from a state of the transfer.\<close>

definition out_bits :: "SPIParams \<Rightarrow> nat \<Rightarrow> nat \<Rightarrow> nat \<Rightarrow> event list" where
  "out_bits p L a b = map (\<lambda>k. Bit (bit L (sr_width p - 1 - k))) [a..<b]"

definition out_frame :: "SPIParams \<Rightarrow> nat \<Rightarrow> nat \<Rightarrow> event list" where
  "out_frame p L j =
     out_bits p L (j * data_width p) (j * data_width p + data_width p) @ [EndWord]"

definition frames_from :: "SPIParams \<Rightarrow> nat \<Rightarrow> nat \<Rightarrow> nat \<Rightarrow> event list" where
  "frames_from p nw L j = concat (map (out_frame p L) [j..<nw])"

definition remaining :: "SPIParams \<Rightarrow> nat \<Rightarrow> nat \<Rightarrow> spi_state \<Rightarrow> event list" where
  "remaining p nw L s =
     (let j = nw - word_counter s; k = position p nw s; e = j * data_width p + data_width p in
      case fsm_state s of
        IDLE \<Rightarrow> []
      | SETUP \<Rightarrow> out_bits p L k e @ EndWord # frames_from p nw L (Suc j)
      | HOLD \<Rightarrow> out_bits p L (Suc k) e @ EndWord # frames_from p nw L (Suc j)
      | DELAY \<Rightarrow> EndWord # frames_from p nw L (Suc j)
      | BUSY_LOW \<Rightarrow> frames_from p nw L j
      | BUSY_HIGH \<Rightarrow> frames_from p nw L j)"

subsection \<open>A device that answers at once\<close>

text \<open>
  The input of a device that pulls \<^verbatim>\<open>busy\<close> low after each word and raises it as soon
  as the core waits for it, and the number of ticks and cycles a transfer then still
  takes.
\<close>

definition handshake :: "spi_state \<Rightarrow> spi_inputs" where
  "handshake s = req False False (fsm_state s = BUSY_HIGH) 0"

definition ticks_left :: "SPIParams \<Rightarrow> spi_state \<Rightarrow> nat" where
  "ticks_left p s =
     (case fsm_state s of
        IDLE \<Rightarrow> 0
      | SETUP \<Rightarrow> 2 * bits s + 4 + (word_counter s - 1) * (2 * data_width p + 2)
      | HOLD \<Rightarrow> 2 * bits s + 3 + (word_counter s - 1) * (2 * data_width p + 2)
      | DELAY \<Rightarrow> 3 + (word_counter s - 1) * (2 * data_width p + 2)
      | BUSY_LOW \<Rightarrow> 2 + word_counter s * (2 * data_width p + 2)
      | BUSY_HIGH \<Rightarrow> 1 + word_counter s * (2 * data_width p + 2))"

definition cycles_left :: "SPIParams \<Rightarrow> spi_state \<Rightarrow> nat" where
  "cycles_left p s = ticks_left p s * clk_width p + clk_counter s"

text \<open>
  The inputs of one word for \<open>ex_params\<close>: 24 cycles for the six ticks of the three
  bits, then \<^verbatim>\<open>busy\<close> low for one tick and high for one tick.
\<close>

definition ex_word_inputs :: "spi_inputs list" where
  "ex_word_inputs = replicate 24 (req False False True 0) @
     [req False False False 0, req False False True 0]"

subsection \<open>The ticks of a transfer\<close>

text \<open>
  The FSM state and the level of \<^verbatim>\<open>syncr\<close> in every cycle that is a tick of the divider.
\<close>

fun tick_trace :: "SPIParams \<Rightarrow> spi_state \<Rightarrow> spi_inputs list \<Rightarrow> (fsm \<times> bool) list" where
  "tick_trace p s [] = []"
| "tick_trace p s (i # is) =
     (if clk_cnt_done s then [(fsm_state s, syncr (fsm_act s i))] else []) @
     tick_trace p (step p s i) is"

text \<open>
  The ticks of one word: a SETUP and a HOLD tick for every bit but the last, a SETUP
  and a DELAY tick for the last, chip select low in all of them; then the ticks of the
  wait, chip select high, as many as the device takes.
\<close>

definition bit_ticks :: "nat \<Rightarrow> (fsm \<times> bool) list" where
  "bit_ticks b = concat (replicate b [(SETUP, False), (HOLD, False)]) @
     [(SETUP, False), (DELAY, False)]"

definition word_ticks :: "SPIParams \<Rightarrow> (fsm \<times> bool) list" where
  "word_ticks p = bit_ticks (data_width p - 1)"

definition gap_ticks :: "nat \<times> nat \<Rightarrow> (fsm \<times> bool) list" where
  "gap_ticks w = replicate (fst w) (BUSY_LOW, True) @ replicate (snd w) (BUSY_HIGH, True)"

definition transfer_ticks :: "SPIParams \<Rightarrow> (nat \<times> nat) list \<Rightarrow> (fsm \<times> bool) list" where
  "transfer_ticks p ws = concat (map (\<lambda>w. word_ticks p @ gap_ticks w) ws)"

definition waits_ok :: "(nat \<times> nat) list \<Rightarrow> bool" where
  "waits_ok ws = list_all (\<lambda>w. 1 \<le> fst w \<and> 1 \<le> snd w) ws"

text \<open>The ticks still to come from a state of the transfer.\<close>

definition words_after :: "spi_state \<Rightarrow> nat" where
  "words_after s = (case fsm_state s of SETUP \<Rightarrow> word_counter s - 1
      | HOLD \<Rightarrow> word_counter s - 1 | DELAY \<Rightarrow> word_counter s - 1 | _ \<Rightarrow> word_counter s)"

definition ticks_from :: "SPIParams \<Rightarrow> spi_state \<Rightarrow> nat \<times> nat \<Rightarrow> (nat \<times> nat) list
    \<Rightarrow> (fsm \<times> bool) list" where
  "ticks_from p s w ws =
     (case fsm_state s of
        IDLE \<Rightarrow> []
      | SETUP \<Rightarrow> bit_ticks (bits s) @ gap_ticks w @ transfer_ticks p ws
      | HOLD \<Rightarrow> (HOLD, False) # bit_ticks (bits s - 1) @ gap_ticks w @ transfer_ticks p ws
      | DELAY \<Rightarrow> (DELAY, False) # gap_ticks w @ transfer_ticks p ws
      | BUSY_LOW \<Rightarrow> gap_ticks w @ transfer_ticks p ws
      | BUSY_HIGH \<Rightarrow> replicate (snd w) (BUSY_HIGH, True) @ transfer_ticks p ws)"

definition shape :: "SPIParams \<Rightarrow> spi_state \<Rightarrow> (fsm \<times> bool) list \<Rightarrow> bool" where
  "shape p s T = (\<exists>w ws. 1 \<le> fst w \<and> 1 \<le> snd w \<and> waits_ok ws \<and>
      length ws = words_after s \<and> T = ticks_from p s w ws)"

subsection \<open>The cycles of a transfer\<close>

text \<open>The FSM state and the level of \<^verbatim>\<open>syncr\<close> in every cycle of the device clock.\<close>

fun cycle_trace :: "SPIParams \<Rightarrow> spi_state \<Rightarrow> spi_inputs list \<Rightarrow> (fsm \<times> bool) list" where
  "cycle_trace p s [] = []"
| "cycle_trace p s (i # is) = (fsm_state s, syncr (fsm_act s i)) # cycle_trace p (step p s i) is"

text \<open>
  SETUP, HOLD and DELAY are entered with the divider reloaded and last \<open>clk_width\<close>
  cycles; the other states are entered with the divider at 0 and every cycle in them is
  a tick. \<open>cycles_of\<close> repeats every tick of a tick trace for the cycles its state lasts.
\<close>

definition slow :: "fsm \<Rightarrow> bool" where
  "slow st = (st = SETUP \<or> st = HOLD \<or> st = DELAY)"

definition duration :: "SPIParams \<Rightarrow> fsm \<Rightarrow> nat" where
  "duration p st = (if slow st then clk_width p else 1)"

definition cycles_of :: "SPIParams \<Rightarrow> (fsm \<times> bool) list \<Rightarrow> (fsm \<times> bool) list" where
  "cycles_of p T = concat (map (\<lambda>x. replicate (duration p (fst x)) x) T)"

text \<open>
  The cycles of one word, chip select low in all of them, and the cycles of a transfer
  whose waits are \<open>ws\<close>: after each word, chip select high for the cycles of the wait.
\<close>

definition word_cycles :: "SPIParams \<Rightarrow> (fsm \<times> bool) list" where
  "word_cycles p =
     concat (replicate (data_width p - 1)
       (replicate (clk_width p) (SETUP, False) @ replicate (clk_width p) (HOLD, False))) @
     replicate (clk_width p) (SETUP, False) @ replicate (clk_width p) (DELAY, False)"

definition transfer_cycles :: "SPIParams \<Rightarrow> (nat \<times> nat) list \<Rightarrow> (fsm \<times> bool) list" where
  "transfer_cycles p ws = concat (map (\<lambda>w. word_cycles p @ gap_ticks w) ws)"

text \<open>
  The divider during a transfer, and the cycles a state has already lasted.
\<close>

definition clocked :: "SPIParams \<Rightarrow> spi_state \<Rightarrow> bool" where
  "clocked p s = (if slow (fsm_state s) then clk_counter s < clk_width p else clk_counter s = 0)"

definition lead :: "SPIParams \<Rightarrow> spi_state \<Rightarrow> nat" where
  "lead p s = (if slow (fsm_state s) then clk_width p - 1 - clk_counter s else 0)"

subsection \<open>The inputs of a whole burst\<close>

text \<open>
  The inputs of one word when the device answers as follows: \<^verbatim>\<open>busy\<close> is high while
  the word is shifted out (\<open>2 * data_width\<close> ticks of \<open>clk_width\<close> cycles each), low
  on the two ticks after the DELAY tick and high again from the third tick on. A burst
  is \<^verbatim>\<open>start\<close> for one cycle and then one such answer for every channel.
\<close>

definition word_inputs :: "SPIParams \<Rightarrow> nat \<Rightarrow> spi_inputs list" where
  "word_inputs p d = replicate (2 * data_width p * clk_width p) (req False False True d) @
     [req False False False d, req False False False d, req False False True d]"

definition burst :: "SPIParams \<Rightarrow> nat \<Rightarrow> spi_inputs list" where
  "burst p d = req True False True d # concat (replicate (channels p) (word_inputs p d))"

text \<open>
  The scenario of the specification: 4 channels of 24 bits, a clock divisor of 4, and
  the cycle-by-cycle inputs written out for the latch value \<open>d\<close>.
\<close>

definition scenario_params :: SPIParams where
  "scenario_params = \<lparr>channels = 4, data_width = 24, clk_width = 4\<rparr>"

definition scenario_inputs :: "nat \<Rightarrow> spi_inputs list" where
  "scenario_inputs d = req True False True d #
     concat (replicate 4 (replicate 192 (req False False True d) @
       [req False False False d, req False False False d, req False False True d]))"

section \<open>Properties\<close>

subsection \<open>The configurations the core can be built with\<close>

lemma valid_iff: "valid p \<longleftrightarrow> 1 \<le> channels p \<and> 1 \<le> data_width p \<and> 2 \<le> clk_width p"
  by (auto simp add: valid_def SPI_init_def signal_width_def signal_max_def
      split: sum.splits if_splits)

lemma SPI_init_widths:
  "SPI_init p = Inr w \<Longrightarrow>
   w_sr_data w = sr_width p \<and> w_clk_counter w = clk_counter_width p \<and>
   w_bits w = bits_width p \<and> w_word_counter w = word_counter_width p"
  by (auto simp add: SPI_init_def signal_width_def signal_max_def sr_width_def
      clk_counter_width_def bits_width_def word_counter_width_def split: sum.splits if_splits)

subsection \<open>What one cycle does, state by state\<close>

lemmas step_defs = step_def datapath_def fsm_act_def fsm_default_def clk_cnt_done_def
  clk_counter_next_def ongoing_def before_leaving_def Let_def

lemma step_not_tick:
  "\<not> clk_cnt_done s \<Longrightarrow>
   step p s i = s\<lparr>clk_counter := dec (clk_counter_width p) (clk_counter s),
                  sync_init := (init i \<or> sync_init s)\<rparr>"
  by (cases "init i") (simp_all add: step_def clk_cnt_done_def clk_counter_next_def)

lemma step_IDLE_stay:
  "fsm_state s = IDLE \<Longrightarrow> clk_counter s = 0 \<Longrightarrow> \<not> start i \<Longrightarrow> \<not> init i \<Longrightarrow>
   step p s i = s\<lparr>word_counter := (if sync_init s \<and> \<not> initialized s then 1 else channels p),
                  bits := data_width p - 1\<rparr>"
  by (simp add: step_defs init_latch_def)

lemma step_IDLE_go:
  "fsm_state s = IDLE \<Longrightarrow> clk_counter s = 0 \<Longrightarrow> start i \<or> init i \<Longrightarrow>
   step p s i = s\<lparr>clk_counter := clk_width p - 1, sync_init := (init i \<or> sync_init s),
                  fsm_state := SETUP,
                  word_counter := (if init_latch s i \<and> \<not> initialized s then 1 else channels p),
                  bits := data_width p - 1,
                  sr_data := (if init_latch s i then init_word p (dataSPI i)
                              else dataSPI i mod 2 ^ sr_width p)\<rparr>"
  by (cases "init i") (auto simp add: step_defs)

lemma step_SETUP:
  "fsm_state s = SETUP \<Longrightarrow> clk_counter s = 0 \<Longrightarrow>
   step p s i = s\<lparr>clk_counter := clk_width p - 1, sync_init := (init i \<or> sync_init s),
                  fsm_state := (if bits s = 0 then DELAY else HOLD)\<rparr>"
  by (cases "init i") (auto simp add: step_defs)

lemma step_HOLD:
  "fsm_state s = HOLD \<Longrightarrow> clk_counter s = 0 \<Longrightarrow>
   step p s i = s\<lparr>clk_counter := clk_width p - 1, sync_init := (init i \<or> sync_init s),
                  fsm_state := SETUP, bits := dec (bits_width p) (bits s),
                  sr_data := shift_left p (sr_data s)\<rparr>"
  by (cases "init i") (auto simp add: step_defs)

lemma step_DELAY:
  "fsm_state s = DELAY \<Longrightarrow> clk_counter s = 0 \<Longrightarrow>
   step p s i = s\<lparr>sync_init := (init i \<or> sync_init s),
                  fsm_state := BUSY_LOW,
                  word_counter := dec (word_counter_width p) (word_counter s),
                  sr_data := shift_left p (sr_data s)\<rparr>"
  by (cases "init i") (auto simp add: step_defs)

lemma step_BUSY_LOW:
  "fsm_state s = BUSY_LOW \<Longrightarrow> clk_counter s = 0 \<Longrightarrow>
   step p s i = s\<lparr>sync_init := (init i \<or> sync_init s),
                  fsm_state := (if busy i then BUSY_LOW else BUSY_HIGH)\<rparr>"
  by (cases "init i") (auto simp add: step_defs)

lemma step_BUSY_HIGH_wait:
  "fsm_state s = BUSY_HIGH \<Longrightarrow> clk_counter s = 0 \<Longrightarrow> \<not> busy i \<Longrightarrow>
   step p s i = s\<lparr>sync_init := (init i \<or> sync_init s)\<rparr>"
  by (cases "init i") (auto simp add: step_defs)

lemma step_BUSY_HIGH_next:
  "fsm_state s = BUSY_HIGH \<Longrightarrow> clk_counter s = 0 \<Longrightarrow> busy i \<Longrightarrow> word_counter s \<noteq> 0 \<Longrightarrow>
   step p s i = s\<lparr>clk_counter := clk_width p - 1, sync_init := (init i \<or> sync_init s),
                  fsm_state := SETUP, bits := data_width p - 1\<rparr>"
  by (cases "init i") (auto simp add: step_defs)

lemma step_BUSY_HIGH_done:
  "fsm_state s = BUSY_HIGH \<Longrightarrow> clk_counter s = 0 \<Longrightarrow> busy i \<Longrightarrow> word_counter s = 0 \<Longrightarrow>
   step p s i = s\<lparr>sync_init := (init i \<or> sync_init s),
                  fsm_state := IDLE, bits := data_width p - 1,
                  initialized := (init_latch s i \<or> initialized s)\<rparr>"
  by (cases "init i"; cases "initialized s"; cases "sync_init s")
     (auto simp add: step_defs init_latch_def)

lemma step_clk_counter:
  "clk_counter (step p s i) = clk_counter_next p (clk_counter s) (cnt_load (fsm_act s i))"
  by (simp add: step_def datapath_def Let_def)

subsection \<open>Register widths\<close>

lemma bit_length_gt: "n < 2 ^ bit_length n"
proof (induction n rule: bit_length.induct)
  case (1 n)
  show ?case
  proof (cases "n = 0")
    case True
    then show ?thesis by (simp add: bit_length.simps)
  next
    case False
    with 1 have "n div 2 < 2 ^ bit_length (n div 2)" by simp
    then have "n < 2 * 2 ^ bit_length (n div 2)" by linarith
    with False show ?thesis by (simp add: bit_length.simps [of n])
  qed
qed

lemma bits_for_gt: "n < 2 ^ bits_for n"
  using bit_length_gt [of n] by (simp add: bits_for_def)

lemma dec_pos: "0 < x \<Longrightarrow> x < 2 ^ w \<Longrightarrow> dec w x = x - 1"
  by (simp add: dec_def mod_if)

lemma dec_le_bits_for: "0 < x \<Longrightarrow> x \<le> n \<Longrightarrow> dec (bits_for n) x = x - 1"
  using bits_for_gt [of n] by (intro dec_pos) simp_all

lemma clk_dec: "0 < c \<Longrightarrow> c < clk_width p \<Longrightarrow> dec (clk_counter_width p) c = c - 1"
  unfolding clk_counter_width_def by (rule dec_le_bits_for) simp_all

subsection \<open>The init word in the shift register\<close>

lemma init_word_bits:
  "init_word p d = push_bit (data_width p * (channels p - 1)) (take_bit (data_width p) d)"
  by (simp add: init_word_def push_bit_eq_mult take_bit_eq_mod)

lemma slot_bits: "slot p k x = take_bit (data_width p) (drop_bit (data_width p * k) x)"
  by (simp add: slot_def drop_bit_eq_div take_bit_eq_mod)

lemma init_word_slot:
  assumes "k < channels p"
  shows "slot p k (init_word p d) = (if k = channels p - 1 then d mod 2 ^ data_width p else 0)"
proof (cases "k = channels p - 1")
  case True
  then show ?thesis
    by (simp add: slot_bits init_word_bits drop_bit_push_bit take_bit_eq_mod)
next
  case False
  with assms have lt: "k < channels p - 1" by simp
  have "take_bit (data_width p) (drop_bit (data_width p * k)
          (push_bit (data_width p * (channels p - 1)) (take_bit (data_width p) d))) = 0"
  proof (rule bit_eqI)
    fix n
    have "data_width p * Suc k \<le> data_width p * (channels p - 1)"
      using lt by (intro mult_le_mono2) simp
    then have "data_width p * k + data_width p \<le> data_width p * (channels p - 1)"
      by simp
    then show "bit (take_bit (data_width p) (drop_bit (data_width p * k)
          (push_bit (data_width p * (channels p - 1)) (take_bit (data_width p) d)))) n
        = bit (0::nat) n"
      by (auto simp add: bit_take_bit_iff bit_drop_bit_eq bit_push_bit_iff)
  qed
  with False show ?thesis by (simp add: slot_bits init_word_bits)
qed

lemma init_word_lt:
  assumes "valid p"
  shows "init_word p d < 2 ^ sr_width p"
proof -
  have "data_width p + data_width p * (channels p - 1) = data_width p * channels p"
    using assms by (cases "channels p") (simp_all add: valid_iff)
  then have "(2::nat) ^ sr_width p = 2 ^ data_width p * 2 ^ (data_width p * (channels p - 1))"
    by (simp add: sr_width_def flip: power_add)
  moreover have "d mod 2 ^ data_width p < 2 ^ data_width p" by simp
  ultimately show ?thesis
    unfolding init_word_def by (metis mult_less_cancel2 zero_less_numeral zero_less_power)
qed

subsection \<open>The ready output\<close>

text \<open>
  C2, as the code has it. \<^verbatim>\<open>ready\<close> is driven in the IDLE state alone and there without
  a condition: it is high if and only if the FSM is in IDLE, whether or not \<^verbatim>\<open>start\<close> or
  \<^verbatim>\<open>init\<close> is asserted in that cycle. So it is never high during a transfer.
\<close>

theorem ready_iff_IDLE: "ready (fsm_act s i) \<longleftrightarrow> fsm_state s = IDLE"
  by (cases "fsm_state s") (simp_all add: fsm_act_def fsm_default_def Let_def)

text \<open>
  C2, as the specification words it, fails: after reset, in the cycle where \<^verbatim>\<open>start\<close> is
  asserted, \<^verbatim>\<open>ready\<close> is high although a start request is pending.
\<close>

theorem ready_counterexample:
  "\<not> (ready (fsm_act reset_state (req True False True 0)) \<longleftrightarrow>
       (fsm_state reset_state = IDLE \<and>
        \<not> (start (req True False True 0) \<or> init (req True False True 0))))"
  by (simp add: fsm_act_def fsm_default_def reset_state_def req_def)

subsection \<open>The clock divider\<close>

lemma run_countdown:
  "clk_counter s < clk_width p \<Longrightarrow> length is \<le> clk_counter s \<Longrightarrow>
   clk_counter (run p s is) = clk_counter s - length is"
proof (induction "is" arbitrary: s)
  case Nil
  then show ?case by simp
next
  case (Cons i "is")
  then have pos: "0 < clk_counter s" by simp
  then have st: "step p s i =
      s\<lparr>clk_counter := clk_counter s - 1, sync_init := (init i \<or> sync_init s)\<rparr>"
    using Cons.prems by (simp add: step_not_tick clk_cnt_done_def clk_dec)
  have "clk_counter (run p (step p s i) is) = clk_counter (step p s i) - length is"
    using Cons.prems pos by (intro Cons.IH) (simp_all add: st)
  then show ?case using pos by (simp add: st)
qed

text \<open>
  C5, as the code has it. On a tick where \<^verbatim>\<open>cnt_load\<close> is requested the counter reloads
  to \<open>clk_width - 1\<close>, and the next tick then comes exactly \<open>clk_width\<close> cycles later,
  whatever the inputs in between. On a tick where \<^verbatim>\<open>cnt_load\<close> is not requested the
  counter does not reload: it stays 0, so the next cycle is a tick again. On a cycle
  that is not a tick it decrements.
\<close>

theorem clock_divider:
  assumes "valid p" and "clk_counter s < clk_width p"
  shows "(clk_cnt_done s \<and> cnt_load (fsm_act s i) \<longrightarrow>
            clk_counter (step p s i) = clk_width p - 1 \<and>
            (\<forall>is. length is < clk_width p \<longrightarrow>
               (clk_cnt_done (run p (step p s i) is) \<longleftrightarrow> length is = clk_width p - 1))) \<and>
         (clk_cnt_done s \<and> \<not> cnt_load (fsm_act s i) \<longrightarrow> clk_counter (step p s i) = 0) \<and>
         (\<not> clk_cnt_done s \<longrightarrow> clk_counter (step p s i) = clk_counter s - 1)"
proof (intro conjI impI allI)
  assume a: "clk_cnt_done s \<and> cnt_load (fsm_act s i)"
  then show r: "clk_counter (step p s i) = clk_width p - 1"
    by (simp add: step_clk_counter clk_counter_next_def clk_cnt_done_def)
  fix "is" :: "spi_inputs list"
  assume l: "length is < clk_width p"
  have "clk_counter (run p (step p s i) is) = clk_counter (step p s i) - length is"
    using l r assms by (intro run_countdown) (simp_all add: valid_iff)
  then show "clk_cnt_done (run p (step p s i) is) \<longleftrightarrow> length is = clk_width p - 1"
    using l r by (auto simp add: clk_cnt_done_def)
next
  assume "clk_cnt_done s \<and> \<not> cnt_load (fsm_act s i)"
  then show "clk_counter (step p s i) = 0"
    by (simp add: step_clk_counter clk_counter_next_def clk_cnt_done_def)
next
  assume "\<not> clk_cnt_done s"
  then show "clk_counter (step p s i) = clk_counter s - 1"
    using assms by (simp add: step_clk_counter clk_counter_next_def clk_cnt_done_def clk_dec)
qed

theorem clock_divider_witness:
  "valid ex_params \<and> clk_counter (ex_state SETUP 0) < clk_width ex_params \<and>
   clk_cnt_done (ex_state SETUP 0) \<and>
   cnt_load (fsm_act (ex_state SETUP 0) (req False False True 0)) \<and>
   clk_counter (step ex_params (ex_state SETUP 0) (req False False True 0)) = 3 \<and>
   \<not> clk_cnt_done (run ex_params (step ex_params (ex_state SETUP 0) (req False False True 0))
        [req False False True 0, req False False True 0]) \<and>
   clk_cnt_done (run ex_params (step ex_params (ex_state SETUP 0) (req False False True 0))
        [req False False True 0, req False False True 0, req False False True 0]) \<and>
   clk_cnt_done (ex_state DELAY 0) \<and>
   \<not> cnt_load (fsm_act (ex_state DELAY 0) (req False False True 0)) \<and>
   clk_counter (step ex_params (ex_state DELAY 0) (req False False True 0)) = 0 \<and>
   \<not> clk_cnt_done (ex_state HOLD 2) \<and>
   clk_counter (step ex_params (ex_state HOLD 2) (req False False True 0)) = 1"
proof -
  let ?q = "req False False True 0"
  have v: "valid ex_params" by (simp add: valid_iff ex_params_def)
  have c: "clk_counter (ex_state st 0) < clk_width ex_params" for st
    by (simp add: ex_state_def ex_params_def)
  have c2: "clk_counter (ex_state HOLD 2) < clk_width ex_params"
    by (simp add: ex_state_def ex_params_def)
  have l: "clk_cnt_done (ex_state SETUP 0) \<and> cnt_load (fsm_act (ex_state SETUP 0) ?q)"
    by (simp add: ex_state_def clk_cnt_done_def fsm_act_def fsm_default_def)
  have n: "clk_cnt_done (ex_state DELAY 0) \<and> \<not> cnt_load (fsm_act (ex_state DELAY 0) ?q)"
    by (simp add: ex_state_def clk_cnt_done_def fsm_act_def fsm_default_def)
  have h: "\<not> clk_cnt_done (ex_state HOLD 2)"
    by (simp add: ex_state_def clk_cnt_done_def)
  note a = clock_divider [OF v c [of SETUP], where i = ?q, THEN conjunct1, rule_format, OF l]
  note b = clock_divider [OF v c [of DELAY], where i = ?q, THEN conjunct2, THEN conjunct1,
      rule_format, OF n]
  note d = clock_divider [OF v c2, where i = ?q, THEN conjunct2, THEN conjunct2, rule_format, OF h]
  have a1: "clk_counter (step ex_params (ex_state SETUP 0) ?q) = 3"
    using a [THEN conjunct1] by (simp add: ex_params_def)
  have a2: "\<not> clk_cnt_done (run ex_params (step ex_params (ex_state SETUP 0) ?q) [?q, ?q])"
    using a [THEN conjunct2, rule_format, of "[?q, ?q]"] by (simp add: ex_params_def)
  have a3: "clk_cnt_done (run ex_params (step ex_params (ex_state SETUP 0) ?q) [?q, ?q, ?q])"
    using a [THEN conjunct2, rule_format, of "[?q, ?q, ?q]"] by (simp add: ex_params_def)
  have d1: "clk_counter (step ex_params (ex_state HOLD 2) ?q) = 1"
    using d by (simp add: ex_state_def)
  from v c [of SETUP] l a1 a2 a3 n b h d1 show ?thesis by blast
qed

text \<open>
  C5, as the specification words it, fails where it says that the counter reloads by itself
  after reaching 0. After reset, \<^verbatim>\<open>start\<close> and 23 more cycles bring the FSM to the
  tick of the DELAY state of the first word: there the FSM does not request
  \<^verbatim>\<open>cnt_load\<close>, the counter has reached 0 and it stays 0 instead of reloading to
  \<open>clk_width - 1 = 3\<close>, so the next cycle is a tick again although \<open>clk_width\<close> is 4.
\<close>

theorem clock_divider_counterexample:
  "fsm_state (run ex_params reset_state
     (req True False True 44 # replicate 23 (req False False True 0))) = DELAY \<and>
   clk_cnt_done (run ex_params reset_state
     (req True False True 44 # replicate 23 (req False False True 0))) \<and>
   clk_counter (step ex_params (run ex_params reset_state
     (req True False True 44 # replicate 23 (req False False True 0))) (req False False True 0))
     \<noteq> clk_width ex_params - 1 \<and>
   clk_cnt_done (step ex_params (run ex_params reset_state
     (req True False True 44 # replicate 23 (req False False True 0))) (req False False True 0))"
  by code_simp

subsection \<open>Loading the shift register\<close>

text \<open>
  C6. \<^verbatim>\<open>data_load\<close> is high in the cycle in which the FSM leaves IDLE and low in the
  cycle after it. On that tick, if an init transfer is pending (\<^verbatim>\<open>init_latch\<close>) the
  shift register receives the lowest \<open>data_width\<close> bits of the latch in its top
  channel slot and 0 in every other slot; otherwise it receives the whole latch.
\<close>

theorem load_on_leaving_IDLE:
  assumes "valid p" and "fsm_state s = IDLE" and "clk_cnt_done s" and "start i \<or> init i"
    and "dataSPI i < 2 ^ sr_width p"
  shows "data_load (fsm_act s i) \<and> \<not> data_load (fsm_act (step p s i) i') \<and>
         (init_latch s i \<longrightarrow>
            (\<forall>k<channels p. slot p k (sr_data (step p s i)) =
               (if k = channels p - 1 then dataSPI i mod 2 ^ data_width p else 0))) \<and>
         (\<not> init_latch s i \<longrightarrow> sr_data (step p s i) = dataSPI i)"
  using assms
  by (auto simp add: step_IDLE_go clk_cnt_done_def init_word_slot fsm_act_def fsm_default_def
      Let_def)

theorem load_on_leaving_IDLE_witness:
  "valid ex_params \<and> fsm_state (ex_state IDLE 0) = IDLE \<and> clk_cnt_done (ex_state IDLE 0) \<and>
   init (req False True True 45) \<and> start (req True False True 45) \<and>
   (45::nat) < 2 ^ sr_width ex_params \<and>
   init_latch (ex_state IDLE 0) (req False True True 45) \<and>
   slot ex_params 1 (sr_data (step ex_params (ex_state IDLE 0) (req False True True 45))) = 5 \<and>
   slot ex_params 0 (sr_data (step ex_params (ex_state IDLE 0) (req False True True 45))) = 0 \<and>
   \<not> init_latch (ex_state IDLE 0) (req True False True 45) \<and>
   sr_data (step ex_params (ex_state IDLE 0) (req True False True 45)) = 45"
proof -
  have v: "valid ex_params" by (simp add: valid_iff ex_params_def)
  have s: "fsm_state (ex_state IDLE 0) = IDLE" "clk_cnt_done (ex_state IDLE 0)"
    by (simp_all add: ex_state_def clk_cnt_done_def)
  have d: "dataSPI (req a b c 45) < 2 ^ sr_width ex_params" for a b c
    by (simp add: req_def sr_width_def ex_params_def)
  have i: "start (req False True True 45) \<or> init (req False True True 45)"
    and n: "start (req True False True 45) \<or> init (req True False True 45)"
    by (simp_all add: req_def)
  have il: "init_latch (ex_state IDLE 0) (req False True True 45)"
    and nl: "\<not> init_latch (ex_state IDLE 0) (req True False True 45)"
    by (simp_all add: init_latch_def req_def ex_state_def)
  note a = load_on_leaving_IDLE [OF v s i d, THEN conjunct2, THEN conjunct2, THEN conjunct1,
      rule_format, OF il]
  note b = load_on_leaving_IDLE [OF v s n d, THEN conjunct2, THEN conjunct2, THEN conjunct2,
      rule_format, OF nl]
  have a1: "slot ex_params 1 (sr_data (step ex_params (ex_state IDLE 0) (req False True True 45))) = 5"
    using a [of 1] by (simp add: ex_params_def req_def)
  have a0: "slot ex_params 0 (sr_data (step ex_params (ex_state IDLE 0) (req False True True 45))) = 0"
    using a [of 0] by (simp add: ex_params_def req_def)
  have b1: "sr_data (step ex_params (ex_state IDLE 0) (req True False True 45)) = 45"
    using b by (simp add: req_def)
  have "init (req False True True 45)" "start (req True False True 45)"
    by (simp_all add: req_def)
  with v s d [of True True True] il a1 a0 nl b1 show ?thesis by (simp add: req_def)
qed

text \<open>
  C10. Once \<^verbatim>\<open>initialized\<close> is set, a tick in IDLE with \<^verbatim>\<open>init\<close> asserted starts a
  transfer whose shift register is loaded in init style (the lowest segment of the latch
  in the top slot, 0 in the other slots) while the word counter is set to \<open>channels\<close>,
  not to 1.
\<close>

theorem init_when_initialized:
  "fsm_state s = IDLE \<Longrightarrow> clk_cnt_done s \<Longrightarrow> initialized s \<Longrightarrow> init i \<Longrightarrow> k < channels p \<Longrightarrow>
     fsm_state (step p s i) = SETUP \<and>
     slot p k (sr_data (step p s i)) =
       (if k = channels p - 1 then dataSPI i mod 2 ^ data_width p else 0) \<and>
     word_counter (step p s i) = channels p"
  by (simp add: step_IDLE_go clk_cnt_done_def init_latch_def init_word_slot)

theorem init_when_initialized_witness:
  "fsm_state ((ex_state IDLE 0)\<lparr>initialized := True\<rparr>) = IDLE \<and>
   clk_cnt_done ((ex_state IDLE 0)\<lparr>initialized := True\<rparr>) \<and>
   initialized ((ex_state IDLE 0)\<lparr>initialized := True\<rparr>) \<and>
   init (req False True True 45) \<and> (1::nat) < channels ex_params \<and>
   fsm_state (step ex_params ((ex_state IDLE 0)\<lparr>initialized := True\<rparr>)
     (req False True True 45)) = SETUP \<and>
   slot ex_params 1 (sr_data (step ex_params ((ex_state IDLE 0)\<lparr>initialized := True\<rparr>)
     (req False True True 45))) = 5 \<and>
   slot ex_params 0 (sr_data (step ex_params ((ex_state IDLE 0)\<lparr>initialized := True\<rparr>)
     (req False True True 45))) = 0 \<and>
   word_counter (step ex_params ((ex_state IDLE 0)\<lparr>initialized := True\<rparr>)
     (req False True True 45)) = 2"
  using init_when_initialized [where s = "(ex_state IDLE 0)\<lparr>initialized := True\<rparr>"
          and i = "req False True True 45" and k = 1 and p = ex_params]
        init_when_initialized [where s = "(ex_state IDLE 0)\<lparr>initialized := True\<rparr>"
          and i = "req False True True 45" and k = 0 and p = ex_params]
  by (simp add: ex_state_def req_def ex_params_def clk_cnt_done_def)

subsection \<open>Inputs and cycles that change nothing\<close>

text \<open>
  C7. In every state other than IDLE, and for all other inputs, the value of \<^verbatim>\<open>start\<close>
  changes neither the successor state (FSM state, shift register, counters, flags)
  nor anything the FSM drives in that cycle.
\<close>

theorem start_ignored:
  "fsm_state s \<noteq> IDLE \<Longrightarrow>
     step p s (i\<lparr>start := a\<rparr>) = step p s (i\<lparr>start := b\<rparr>) \<and>
     fsm_act s (i\<lparr>start := a\<rparr>) = fsm_act s (i\<lparr>start := b\<rparr>)"
  by (cases "fsm_state s") (simp_all add: step_defs init_latch_def)

theorem start_ignored_witness:
  "fsm_state (ex_state BUSY_HIGH 0) \<noteq> IDLE \<and>
   step ex_params (ex_state BUSY_HIGH 0) (req True False True 7) =
   step ex_params (ex_state BUSY_HIGH 0) (req False False True 7)"
  using start_ignored [where s = "ex_state BUSY_HIGH 0" and p = ex_params
      and i = "req False False True 7" and a = True and b = False]
  by (simp add: ex_state_def req_def)

text \<open>
  C9. On a cycle where the divider's tick \<open>clk_cnt_done\<close> is low, the FSM state, the
  shift register, the bit counter, the word counter and the initialized flag keep their
  values.
\<close>

theorem no_tick_frame:
  "\<not> clk_cnt_done s \<Longrightarrow>
     fsm_state (step p s i) = fsm_state s \<and>
     sr_data (step p s i) = sr_data s \<and>
     bits (step p s i) = bits s \<and>
     word_counter (step p s i) = word_counter s \<and>
     initialized (step p s i) = initialized s"
  by (simp add: step_not_tick)

theorem no_tick_frame_witness:
  "\<not> clk_cnt_done (ex_state HOLD 2) \<and>
   fsm_state (step ex_params (ex_state HOLD 2) (req True True False 5)) = HOLD \<and>
   sr_data (step ex_params (ex_state HOLD 2) (req True True False 5)) = 44 \<and>
   bits (step ex_params (ex_state HOLD 2) (req True True False 5)) = 1 \<and>
   word_counter (step ex_params (ex_state HOLD 2) (req True True False 5)) = 2 \<and>
   initialized (step ex_params (ex_state HOLD 2) (req True True False 5)) = False"
  using no_tick_frame [where s = "ex_state HOLD 2" and p = ex_params
      and i = "req True True False 5"]
  by (simp add: ex_state_def clk_cnt_done_def)

subsection \<open>The trace of a transfer\<close>

lemma pads_simps [simp]:
  "pad_sdi (pads p s i) = sdi p s"
  "pad_sclk (pads p s i) = (fsm_state s = SETUP)"
  "pad_syncr (pads p s i) = (fsm_state s \<noteq> SETUP \<and> fsm_state s \<noteq> HOLD \<and> fsm_state s \<noteq> DELAY)"
  by (cases "fsm_state s"; simp add: pads_def fsm_act_def fsm_default_def Let_def)+

lemma shift_left_shifted: "shift_left p (shifted p L k) = shifted p L (Suc k)"
  by (simp add: shift_left_def shifted_def mod_mult_right_eq mult.assoc mult.left_commute)

lemma msb_shifted:
  "k < sr_width p \<Longrightarrow> bit (shifted p L k) (sr_width p - 1) = bit L (sr_width p - 1 - k)"
proof -
  assume k: "k < sr_width p"
  have "shifted p L k = take_bit (sr_width p) (push_bit k L)"
    by (simp add: shifted_def take_bit_eq_mod push_bit_eq_mult)
  with k show ?thesis
    by (auto simp add: bit_take_bit_iff bit_push_bit_iff)
qed

lemma frames_from_step: "j < nw \<Longrightarrow> frames_from p nw L j = out_frame p L j @ frames_from p nw L (Suc j)"
  by (simp add: frames_from_def upt_conv_Cons)

lemma frames_from_end [simp]: "frames_from p nw L nw = []"
  by (simp add: frames_from_def)

lemma out_bits_step: "a < b \<Longrightarrow> out_bits p L a b = Bit (bit L (sr_width p - 1 - a)) # out_bits p L (Suc a) b"
  by (simp add: out_bits_def upt_conv_Cons)

lemma out_bits_end [simp]: "out_bits p L a a = []"
  by (simp add: out_bits_def)

lemma position_bound:
  assumes "0 < w" "w \<le> nw" "nw \<le> channels p"
  shows "(nw - w) * data_width p + data_width p \<le> sr_width p"
proof -
  have "Suc (nw - w) \<le> channels p" using assms by simp
  then have "Suc (nw - w) * data_width p \<le> channels p * data_width p"
    by (rule mult_le_mono1)
  then show ?thesis by (simp add: sr_width_def mult.commute)
qed

lemma bits_dec: "0 < b \<Longrightarrow> b < data_width p \<Longrightarrow> 0 < channels p \<Longrightarrow> dec (bits_width p) b = b - 1"
proof -
  assume a: "0 < b" "b < data_width p" "0 < channels p"
  then have "data_width p \<le> data_width p * channels p" by simp
  with a have "b \<le> data_width p * channels p" by linarith
  with a show ?thesis unfolding bits_width_def by (intro dec_le_bits_for)
qed

lemma word_dec: "0 < w \<Longrightarrow> w \<le> channels p \<Longrightarrow> dec (word_counter_width p) w = w - 1"
  unfolding word_counter_width_def by (rule dec_le_bits_for)

lemma in_transfer_frame [simp]:
  "in_transfer p nw L (s\<lparr>clk_counter := c\<rparr>) = in_transfer p nw L s"
  "in_transfer p nw L (s\<lparr>sync_init := b\<rparr>) = in_transfer p nw L s"
  "in_transfer p nw L (s\<lparr>initialized := b\<rparr>) = in_transfer p nw L s"
  by (cases "fsm_state s"; simp add: in_transfer_def position_def)+

lemma remaining_frame [simp]:
  "remaining p nw L (s\<lparr>clk_counter := c\<rparr>) = remaining p nw L s"
  "remaining p nw L (s\<lparr>sync_init := b\<rparr>) = remaining p nw L s"
  "remaining p nw L (s\<lparr>initialized := b\<rparr>) = remaining p nw L s"
  by (cases "fsm_state s"; simp add: remaining_def position_def)+

lemma edge_simps:
  "edge (pads p s i) (pads p s' j) =
     (if fsm_state s = SETUP \<and> fsm_state s' \<noteq> SETUP then [Bit (sdi p s)] else []) @
     (if (fsm_state s = SETUP \<or> fsm_state s = HOLD \<or> fsm_state s = DELAY) \<and>
         fsm_state s' \<noteq> SETUP \<and> fsm_state s' \<noteq> HOLD \<and> fsm_state s' \<noteq> DELAY
      then [EndWord] else [])"
  by (auto simp add: edge_def)

lemma transfer_step_SETUP:
  assumes "valid p" "0 < nw" "nw \<le> channels p" "in_transfer p nw L s"
    and "fsm_state s = SETUP" "clk_counter s = 0"
  shows "in_transfer p nw L (step p s i) \<and>
     edge (pads p s i) (pads p (step p s i) j) @ remaining p nw L (step p s i) = remaining p nw L s"
proof -
  let ?k = "position p nw s"
  let ?j = "nw - word_counter s"
  from assms have w: "0 < word_counter s" "word_counter s \<le> nw" and b: "bits s < data_width p"
    and sr: "sr_data s = shifted p L ?k"
    by (simp_all add: in_transfer_def)
  have k: "?k = ?j * data_width p + (data_width p - 1 - bits s)"
    using assms by (simp add: position_def)
  have "?j * data_width p + data_width p \<le> sr_width p"
    using w assms by (intro position_bound) simp_all
  with k b have kW: "?k < sr_width p" by simp
  have ke: "?k < ?j * data_width p + data_width p" using k b by simp
  have out: "sdi p s = bit L (sr_width p - 1 - ?k)"
    unfolding sdi_def sr using kW by (rule msb_shifted)
  show ?thesis
  proof (cases "bits s = 0")
    case True
    then have "Suc ?k = ?j * data_width p + data_width p" using k b by simp
    with True assms w sr out ke show ?thesis
      by (simp add: step_SETUP edge_simps in_transfer_def position_def remaining_def Let_def
          out_bits_step)
  next
    case False
    with assms w b sr out ke show ?thesis
      by (simp add: step_SETUP edge_simps in_transfer_def position_def remaining_def Let_def
          out_bits_step)
  qed
qed

lemma transfer_step_HOLD:
  assumes "valid p" "0 < nw" "nw \<le> channels p" "in_transfer p nw L s"
    and "fsm_state s = HOLD" "clk_counter s = 0"
  shows "in_transfer p nw L (step p s i) \<and>
     edge (pads p s i) (pads p (step p s i) j) @ remaining p nw L (step p s i) = remaining p nw L s"
proof -
  from assms have w: "0 < word_counter s" "word_counter s \<le> nw"
    and b: "0 < bits s" "bits s < data_width p"
    and sr: "sr_data s = shifted p L (position p nw s)"
    by (simp_all add: in_transfer_def)
  have d: "dec (bits_width p) (bits s) = bits s - 1"
    using b assms by (intro bits_dec) (simp_all add: valid_iff)
  have "data_width p - 1 - (bits s - 1) = Suc (data_width p - 1 - bits s)"
    using b by simp
  with assms w b sr d show ?thesis
    by (simp add: step_HOLD edge_simps in_transfer_def position_def remaining_def Let_def
        shift_left_shifted)
qed

lemma transfer_step_DELAY:
  assumes "valid p" "0 < nw" "nw \<le> channels p" "in_transfer p nw L s"
    and "fsm_state s = DELAY" "clk_counter s = 0"
  shows "in_transfer p nw L (step p s i) \<and>
     edge (pads p s i) (pads p (step p s i) j) @ remaining p nw L (step p s i) = remaining p nw L s"
proof -
  from assms have w: "0 < word_counter s" "word_counter s \<le> nw"
    and b: "bits s = 0"
    and sr: "sr_data s = shifted p L (position p nw s)"
    by (simp_all add: in_transfer_def)
  have d: "dec (word_counter_width p) (word_counter s) = word_counter s - 1"
    using w assms by (intro word_dec) simp_all
  have j: "nw - (word_counter s - 1) = Suc (nw - word_counter s)"
    using w by simp
  have "0 < data_width p" using assms by (simp add: valid_iff)
  then have k: "Suc ((nw - word_counter s) * data_width p + (data_width p - 1)) =
      Suc (nw - word_counter s) * data_width p"
    by simp
  have lt: "word_counter s - 1 < nw" "word_counter s - 1 \<le> nw" using w by simp_all
  have "position p nw s = (nw - word_counter s) * data_width p + (data_width p - 1)"
    using assms b by (simp add: position_def)
  then have "shift_left p (sr_data s) = shifted p L (Suc (nw - word_counter s) * data_width p)"
    unfolding sr shift_left_shifted k [symmetric] by simp
  with assms lt d j show ?thesis
    by (simp add: step_DELAY edge_simps in_transfer_def position_def remaining_def Let_def)
qed

lemma transfer_step_BUSY_LOW:
  assumes "in_transfer p nw L s" and "fsm_state s = BUSY_LOW" "clk_counter s = 0"
  shows "in_transfer p nw L (step p s i) \<and>
     edge (pads p s i) (pads p (step p s i) j) @ remaining p nw L (step p s i) = remaining p nw L s"
  using assms
  by (simp add: step_BUSY_LOW edge_simps in_transfer_def position_def remaining_def Let_def)

lemma transfer_step_BUSY_HIGH:
  assumes "valid p" "in_transfer p nw L s" and "fsm_state s = BUSY_HIGH" "clk_counter s = 0"
    and "fsm_state (step p s i) \<noteq> IDLE"
  shows "in_transfer p nw L (step p s i) \<and>
     edge (pads p s i) (pads p (step p s i) j) @ remaining p nw L (step p s i) = remaining p nw L s"
proof (cases "busy i")
  case False
  with assms show ?thesis
    by (simp add: step_BUSY_HIGH_wait edge_simps)
next
  case True
  with assms have w: "word_counter s \<noteq> 0"
    by (cases "word_counter s = 0") (simp_all add: step_BUSY_HIGH_done)
  from assms have lt: "word_counter s < nw"
    and sr: "sr_data s = shifted p L (position p nw s)"
    by (simp_all add: in_transfer_def)
  have dw: "0 < data_width p" using assms by (simp add: valid_iff)
  have j: "nw - word_counter s < nw" using w lt by simp
  from True assms w lt sr dw show ?thesis
    by (simp add: step_BUSY_HIGH_next edge_simps in_transfer_def position_def remaining_def
        Let_def frames_from_step [OF j] out_frame_def)
qed

lemma transfer_step:
  assumes "valid p" "0 < nw" "nw \<le> channels p" "in_transfer p nw L s"
    and "fsm_state (step p s i) \<noteq> IDLE"
  shows "in_transfer p nw L (step p s i) \<and>
     edge (pads p s i) (pads p (step p s i) j) @ remaining p nw L (step p s i) = remaining p nw L s"
proof (cases "clk_counter s = 0")
  case False
  with assms show ?thesis
    by (auto simp add: step_not_tick clk_cnt_done_def edge_simps)
next
  case True
  show ?thesis
  proof (cases "fsm_state s")
    case IDLE
    with assms show ?thesis by (simp add: in_transfer_def)
  next
    case SETUP
    with assms True show ?thesis by (intro transfer_step_SETUP)
  next
    case HOLD
    with assms True show ?thesis by (intro transfer_step_HOLD)
  next
    case DELAY
    with assms True show ?thesis by (intro transfer_step_DELAY)
  next
    case BUSY_LOW
    with assms True show ?thesis by (intro transfer_step_BUSY_LOW)
  next
    case BUSY_HIGH
    with assms True show ?thesis by (intro transfer_step_BUSY_HIGH)
  qed
qed

lemma transfer_last:
  assumes "in_transfer p nw L s" and "fsm_state (step p s i) = IDLE"
  shows "fsm_state s = BUSY_HIGH \<and> clk_counter s = 0 \<and> busy i \<and> word_counter s = 0 \<and>
         remaining p nw L s = []"
proof (cases "clk_counter s = 0")
  case False
  with assms show ?thesis
    by (simp add: step_not_tick clk_cnt_done_def in_transfer_def)
next
  case True
  show ?thesis
  proof (cases "fsm_state s")
    case BUSY_HIGH
    show ?thesis
    proof (cases "busy i")
      case b: True
      show ?thesis
      proof (cases "word_counter s = 0")
        case w: True
        with b BUSY_HIGH True show ?thesis by (simp add: remaining_def)
      next
        case w: False
        with b BUSY_HIGH True assms show ?thesis by (simp add: step_BUSY_HIGH_next)
      qed
    next
      case b: False
      with BUSY_HIGH True assms show ?thesis by (simp add: step_BUSY_HIGH_wait)
    qed
  qed (use assms True in \<open>simp_all add: in_transfer_def step_SETUP step_HOLD step_DELAY step_BUSY_LOW
      split: if_splits\<close>)
qed

lemma receive_wire:
  assumes "valid p" "0 < nw" "nw \<le> channels p"
  shows "in_transfer p nw L s \<Longrightarrow> list_all (\<lambda>t. fsm_state t \<noteq> IDLE) (visited p s is) \<Longrightarrow>
         fsm_state (run p s is) = IDLE \<Longrightarrow> receive (wire p s is) = remaining p nw L s"
proof (induction "is" arbitrary: s)
  case Nil
  then show ?case by (simp add: in_transfer_def)
next
  case (Cons i "is")
  show ?case
  proof (cases "is")
    case Nil
    with Cons.prems have "fsm_state (step p s i) = IDLE" by simp
    with Cons.prems have "remaining p nw L s = []" using transfer_last by blast
    with Nil show ?thesis by simp
  next
    case (Cons j js)
    with Cons.prems have n: "fsm_state (step p s i) \<noteq> IDLE" by simp
    note st = transfer_step [OF assms Cons.prems(1) n, of j]
    have "receive (wire p (step p s i) is) = remaining p nw L (step p s i)"
      using Cons.prems st by (intro Cons.IH) simp_all
    with st Cons show ?thesis by simp
  qed
qed

lemma loaded_lt: "valid p \<Longrightarrow> loaded p s i < 2 ^ sr_width p"
  by (simp add: loaded_def init_word_lt)

lemma transfer_words_bounds: "valid p \<Longrightarrow> 0 < transfer_words p s i \<and> transfer_words p s i \<le> channels p"
  by (simp add: transfer_words_def valid_iff)

lemma leave_IDLE:
  assumes "valid p" "fsm_state s = IDLE" "clk_counter s = 0" "start i \<or> init i"
  shows "in_transfer p (transfer_words p s i) (loaded p s i) (step p s i)"
    and "fsm_state (step p s i) = SETUP"
    and "remaining p (transfer_words p s i) (loaded p s i) (step p s i) =
           frames_from p (transfer_words p s i) (loaded p s i) 0"
    and "clk_counter (step p s i) < clk_width p"
proof -
  have st: "step p s i = s\<lparr>clk_counter := clk_width p - 1, sync_init := (init i \<or> sync_init s),
                  fsm_state := SETUP, word_counter := transfer_words p s i,
                  bits := data_width p - 1, sr_data := loaded p s i\<rparr>"
    using assms by (simp add: step_IDLE_go transfer_words_def loaded_def)
  have dw: "0 < data_width p" and cw: "0 < clk_width p" using assms by (simp_all add: valid_iff)
  have nw: "0 < transfer_words p s i" using assms transfer_words_bounds by blast
  have sh: "shifted p (loaded p s i) 0 = loaded p s i"
    using loaded_lt [OF assms(1), of s i] by (simp add: shifted_def)
  show "in_transfer p (transfer_words p s i) (loaded p s i) (step p s i)"
    using dw nw by (simp add: st in_transfer_def position_def sh)
  show "fsm_state (step p s i) = SETUP" by (simp add: st)
  show "remaining p (transfer_words p s i) (loaded p s i) (step p s i) =
           frames_from p (transfer_words p s i) (loaded p s i) 0"
    using dw nw by (simp add: st remaining_def position_def Let_def frames_from_step out_frame_def)
  show "clk_counter (step p s i) < clk_width p" using cw by (simp add: st)
qed

lemma transfer_from_IDLE:
  assumes "valid p" "fsm_state s = IDLE" "clk_counter s = 0" "start i \<or> init i"
    and "completes p s (i # is)"
  shows "receive (wire p s (i # is)) = frames_from p (transfer_words p s i) (loaded p s i) 0"
proof -
  note l = leave_IDLE [OF assms(1-4)]
  from assms(5) have c: "list_all (\<lambda>t. fsm_state t \<noteq> IDLE) (visited p (step p s i) is)"
    "fsm_state (run p (step p s i) is) = IDLE"
    by (simp_all add: completes_def)
  with l(2) obtain j js where js: "is = j # js" by (cases "is") auto
  have "receive (wire p (step p s i) is) =
        remaining p (transfer_words p s i) (loaded p s i) (step p s i)"
    using assms(1) transfer_words_bounds [OF assms(1), of s i] l(1) c
    by (intro receive_wire) simp_all
  moreover have "edge (pads p s i) (pads p (step p s i) j) = []"
    using assms l(2) by (simp add: edge_simps)
  ultimately show ?thesis using l(3) js by simp
qed

lemma map_upt_shift: "map f [a..<a + n] = map (\<lambda>k. f (a + k)) [0..<n]"
proof -
  have "[a..<a + n] = map (\<lambda>k. k + a) [0..<n]"
    by (simp add: map_add_upt add.commute)
  then show ?thesis by (simp add: o_def add.commute)
qed

lemma slot_bit:
  assumes "j < channels p" "k < data_width p"
  shows "bit (slot p (channels p - Suc j) L) (data_width p - Suc k) =
         bit L (sr_width p - Suc (j * data_width p + k))"
proof -
  let ?d = "data_width p"
  obtain m where m: "channels p = Suc (j + m)"
    using assms(1) by (metis less_iff_Suc_add)
  obtain e where e: "?d = Suc (k + e)"
    using assms(2) by (metis less_iff_Suc_add)
  have "sr_width p = j * ?d + ?d + ?d * m"
    by (simp add: sr_width_def m algebra_simps)
  then have "sr_width p - Suc (j * ?d + k) = ?d * m + e"
    by (simp add: e)
  moreover have "?d * (channels p - Suc j) + (?d - Suc k) = ?d * m + e"
    by (simp add: m e)
  ultimately show ?thesis
    using assms(2) by (simp add: slot_bits bit_take_bit_iff bit_drop_bit_eq)
qed

lemma out_frame_slot:
  assumes "j < channels p"
  shows "out_frame p L j = frame (data_width p) (slot p (channels p - 1 - j) L)"
  using assms
  by (simp add: out_frame_def out_bits_def frame_def msb_first_def map_upt_shift slot_bit)

lemma frames_from_slots:
  assumes "nw \<le> channels p"
  shows "frames_from p nw L 0 =
         concat (map (\<lambda>j. frame (data_width p) (slot p (channels p - 1 - j) L)) [0..<nw])"
proof -
  have "map (out_frame p L) [0..<nw] =
        map (\<lambda>j. frame (data_width p) (slot p (channels p - 1 - j) L)) [0..<nw]"
    using assms by (intro map_cong) (simp_all add: out_frame_slot)
  then show ?thesis unfolding frames_from_def by (rule arg_cong [where f = concat])
qed

lemma handshake_simps [simp]:
  "start (handshake s) = False" "init (handshake s) = False"
  "busy (handshake s) = (fsm_state s = BUSY_HIGH)"
  by (simp_all add: handshake_def req_def)

lemma handshake_tick:
  assumes "valid p" "0 < nw" "nw \<le> channels p" "in_transfer p nw L s" "clk_counter s = 0"
  shows "Suc (ticks_left p (step p s (handshake s))) = ticks_left p s \<and>
         clk_counter (step p s (handshake s)) < clk_width p"
proof (cases "fsm_state s")
  case IDLE
  with assms show ?thesis by (simp add: in_transfer_def)
next
  case SETUP
  with assms show ?thesis
    by (simp add: step_SETUP ticks_left_def valid_iff)
next
  case HOLD
  with assms have b: "0 < bits s" "bits s < data_width p" by (simp_all add: in_transfer_def)
  then have "dec (bits_width p) (bits s) = bits s - 1"
    using assms by (intro bits_dec) (simp_all add: valid_iff)
  with HOLD assms b show ?thesis
    by (simp add: step_HOLD ticks_left_def valid_iff)
next
  case DELAY
  with assms have w: "0 < word_counter s" "word_counter s \<le> nw" by (simp_all add: in_transfer_def)
  then have "dec (word_counter_width p) (word_counter s) = word_counter s - 1"
    using assms by (intro word_dec) simp_all
  with DELAY assms w show ?thesis
    by (simp add: step_DELAY ticks_left_def valid_iff)
next
  case BUSY_LOW
  with assms show ?thesis
    by (simp add: step_BUSY_LOW ticks_left_def valid_iff)
next
  case BUSY_HIGH
  show ?thesis
  proof (cases "word_counter s = 0")
    case True
    with BUSY_HIGH assms show ?thesis
      by (simp add: step_BUSY_HIGH_done ticks_left_def valid_iff)
  next
    case False
    then obtain w where w: "word_counter s = Suc w" by (cases "word_counter s") auto
    obtain d where d: "data_width p = Suc d"
      using assms by (cases "data_width p") (auto simp add: valid_iff)
    from False BUSY_HIGH assms show ?thesis
      by (simp add: step_BUSY_HIGH_next ticks_left_def valid_iff w d)
  qed
qed

lemma handshake_step:
  assumes "valid p" "0 < nw" "nw \<le> channels p" "in_transfer p nw L s"
    and "clk_counter s < clk_width p"
  shows "cycles_left p (step p s (handshake s)) < cycles_left p s \<and>
         clk_counter (step p s (handshake s)) < clk_width p"
proof (cases "clk_counter s = 0")
  case True
  note t = handshake_tick [OF assms(1-4) True]
  let ?s' = "step p s (handshake s)"
  have "ticks_left p ?s' * clk_width p + clk_counter ?s' < Suc (ticks_left p ?s') * clk_width p"
    using t [THEN conjunct2] by simp
  then have "cycles_left p ?s' < ticks_left p s * clk_width p"
    unfolding cycles_left_def t [THEN conjunct1] .
  with t True show ?thesis by (simp add: cycles_left_def)
next
  case False
  then have "dec (clk_counter_width p) (clk_counter s) = clk_counter s - 1"
    using assms by (intro clk_dec) simp_all
  with False assms show ?thesis
    by (cases "fsm_state s"; simp add: step_not_tick clk_cnt_done_def cycles_left_def ticks_left_def)
qed

lemma transfer_can_complete:
  assumes "valid p" "0 < nw" "nw \<le> channels p"
  shows "in_transfer p nw L s \<Longrightarrow> clk_counter s < clk_width p \<Longrightarrow>
         \<exists>is. list_all (\<lambda>t. fsm_state t \<noteq> IDLE) (visited p s is) \<and>
              fsm_state (run p s is) = IDLE"
proof (induction "cycles_left p s" arbitrary: s rule: less_induct)
  case less
  let ?i = "handshake s"
  let ?s' = "step p s ?i"
  note h = handshake_step [OF assms less.prems]
  have n: "fsm_state s \<noteq> IDLE" using less.prems by (auto simp add: in_transfer_def)
  show ?case
  proof (cases "fsm_state ?s' = IDLE")
    case True
    with n have "list_all (\<lambda>t. fsm_state t \<noteq> IDLE) (visited p s [?i]) \<and>
        fsm_state (run p s [?i]) = IDLE"
      by simp
    then show ?thesis by blast
  next
    case False
    have "in_transfer p nw L ?s'"
      using transfer_step [OF assms less.prems(1) False] by simp
    with h less.hyps [of ?s'] obtain js where
      "list_all (\<lambda>t. fsm_state t \<noteq> IDLE) (visited p ?s' js) \<and> fsm_state (run p ?s' js) = IDLE"
      by blast
    with n have "list_all (\<lambda>t. fsm_state t \<noteq> IDLE) (visited p s (?i # js)) \<and>
        fsm_state (run p s (?i # js)) = IDLE"
      by simp
    then show ?thesis by blast
  qed
qed

lemma request_can_complete:
  assumes "valid p" "fsm_state s = IDLE" "clk_counter s = 0" "start i \<or> init i"
  shows "\<exists>is. completes p s (i # is)"
proof -
  note l = leave_IDLE [OF assms]
  have b: "0 < transfer_words p s i" "transfer_words p s i \<le> channels p"
    using transfer_words_bounds [OF assms(1), of s i] by simp_all
  from transfer_can_complete [OF assms(1) b l(1) l(4)]
  obtain js where "list_all (\<lambda>t. fsm_state t \<noteq> IDLE) (visited p (step p s i) js)"
    "fsm_state (run p (step p s i) js) = IDLE"
    by blast
  then have "completes p s (i # js)" by (simp add: completes_def)
  then show ?thesis ..
qed

subsection \<open>A normal transfer\<close>

text \<open>
  C1 speaks of every configuration with \<open>clock_divisor \<ge> 1\<close>, and the
  source's own \<^verbatim>\<open>assert params.clk_width >= 1\<close> admits a divisor of 1. But with
  \<^verbatim>\<open>clk_width = 1\<close> the declaration of \<^verbatim>\<open>clk_counter\<close>, \<^verbatim>\<open>Signal(max=1)\<close>, raises
  before that \<^verbatim>\<open>assert\<close> is reached: the core is not built and no transfer takes place.
\<close>

theorem divisor_one_is_not_built:
  "1 \<le> clk_width \<lparr>channels = 4, data_width = 24, clk_width = 1\<rparr> \<and>
   SPI_init \<lparr>channels = 4, data_width = 24, clk_width = 1\<rparr> = Inl AssertionError \<and>
   \<not> valid \<lparr>channels = 4, data_width = 24, clk_width = 1\<rparr>"
  by (simp add: valid_def SPI_init_def signal_width_def signal_max_def)

text \<open>
  For every configuration the core can be built with, that is from a divisor of 2 on,
  and every value of the data latch, the transfer is as C1 describes it: a transfer
  started from IDLE by an accepted \<^verbatim>\<open>start\<close> with no init pending can be completed,
  and however long the device keeps the core waiting, what the device reads from the
  serial lines until the FSM is back in IDLE is exactly \<open>channels\<close> words of
  \<open>data_width\<close> bits, each most significant bit first: the slots of the latch, the top
  slot first.
\<close>

theorem normal_transfer:
  assumes "valid p" and "fsm_state s = IDLE" and "clk_cnt_done s"
    and "start i" and "\<not> init_latch s i" and "dataSPI i < 2 ^ sr_width p"
  shows "(\<exists>is. completes p s (i # is)) \<and>
         (\<forall>is. completes p s (i # is) \<longrightarrow>
            receive (wire p s (i # is)) =
            concat (map (\<lambda>j. frame (data_width p) (slot p (channels p - 1 - j) (dataSPI i)))
                     [0..<channels p]))"
proof (intro conjI allI impI)
  have c: "clk_counter s = 0" using assms(3) by (simp add: clk_cnt_done_def)
  show "\<exists>is. completes p s (i # is)"
    using assms c by (intro request_can_complete) simp_all
  fix "is"
  assume "completes p s (i # is)"
  then have "receive (wire p s (i # is)) = frames_from p (transfer_words p s i) (loaded p s i) 0"
    using assms c by (intro transfer_from_IDLE) simp_all
  also have "transfer_words p s i = channels p" using assms by (simp add: transfer_words_def)
  also have "loaded p s i = dataSPI i" using assms by (simp add: loaded_def)
  finally show "receive (wire p s (i # is)) =
      concat (map (\<lambda>j. frame (data_width p) (slot p (channels p - 1 - j) (dataSPI i)))
               [0..<channels p])"
    by (simp add: frames_from_slots)
qed

theorem normal_transfer_witness:
  "valid ex_params \<and> fsm_state reset_state = IDLE \<and> clk_cnt_done reset_state \<and>
   start (req True False True 44) \<and> \<not> init_latch reset_state (req True False True 44) \<and>
   dataSPI (req True False True 44) < 2 ^ sr_width ex_params \<and>
   completes ex_params reset_state (req True False True 44 # ex_word_inputs @ ex_word_inputs) \<and>
   receive (wire ex_params reset_state (req True False True 44 # ex_word_inputs @ ex_word_inputs))
     = [Bit True, Bit False, Bit True, EndWord, Bit True, Bit False, Bit False, EndWord]"
proof -
  have v: "valid ex_params" by (simp add: valid_iff ex_params_def)
  have s: "fsm_state reset_state = IDLE" "clk_cnt_done reset_state"
    by (simp_all add: reset_state_def clk_cnt_done_def)
  have i: "start (req True False True 44)" "\<not> init_latch reset_state (req True False True 44)"
    by (simp_all add: req_def init_latch_def reset_state_def)
  have d: "dataSPI (req True False True 44) < 2 ^ sr_width ex_params"
    by (simp add: req_def sr_width_def ex_params_def)
  have c: "completes ex_params reset_state
      (req True False True 44 # ex_word_inputs @ ex_word_inputs)"
    by code_simp
  have e: "concat (map (\<lambda>j. frame (data_width ex_params)
        (slot ex_params (channels ex_params - 1 - j) (dataSPI (req True False True 44))))
        [0..<channels ex_params])
      = [Bit True, Bit False, Bit True, EndWord, Bit True, Bit False, Bit False, EndWord]"
    by code_simp
  note r = normal_transfer [OF v s i d, THEN conjunct2, rule_format, OF c]
  from v s i d c r e show ?thesis by simp
qed


subsection \<open>The init transfer and the initialized flag\<close>

lemma initialized_step: "initialized s \<Longrightarrow> initialized (step p s i)"
  by (cases "fsm_state s") (simp_all add: step_defs)

lemma initialized_run: "initialized s \<Longrightarrow> initialized (run p s is)"
  by (induction "is" arbitrary: s) (simp_all add: initialized_step)

lemma sync_init_step: "sync_init s \<Longrightarrow> sync_init (step p s i)"
  by (cases "fsm_state s") (simp_all add: step_defs)

lemma in_flight_step:
  assumes "fsm_state s \<noteq> IDLE"
  shows "fsm_state (step p s i) \<noteq> IDLE \<longrightarrow> initialized (step p s i) = initialized s"
    and "fsm_state (step p s i) = IDLE \<longrightarrow> clk_counter (step p s i) = 0 \<and>
           (sync_init s \<longrightarrow> initialized (step p s i))"
  using assms
  by (cases "fsm_state s"; cases "initialized s"; simp add: step_defs init_latch_def)+

lemma in_flight_run:
  "list_all (\<lambda>t. fsm_state t \<noteq> IDLE) (visited p s is) \<Longrightarrow> fsm_state (run p s is) = IDLE \<Longrightarrow>
   sync_init s \<Longrightarrow> \<not> initialized s \<Longrightarrow> is \<noteq> [] \<Longrightarrow>
   list_all (\<lambda>t. \<not> initialized t) (visited p s is) \<and> initialized (run p s is) \<and>
   clk_counter (run p s is) = 0"
proof (induction "is" arbitrary: s)
  case Nil
  then show ?case by simp
next
  case (Cons i "is")
  then have n: "fsm_state s \<noteq> IDLE" by simp
  show ?case
  proof (cases "is")
    case Nil
    with Cons.prems in_flight_step(2) [OF n, of p i] show ?thesis by simp
  next
    case (Cons j js)
    with Cons.prems have m: "fsm_state (step p s i) \<noteq> IDLE" by simp
    with in_flight_step(1) [OF n, of p i] Cons.prems have "\<not> initialized (step p s i)" by simp
    moreover have "sync_init (step p s i)" using Cons.prems by (simp add: sync_init_step)
    ultimately have "list_all (\<lambda>t. \<not> initialized t) (visited p (step p s i) is) \<and>
        initialized (run p (step p s i) is) \<and> clk_counter (run p (step p s i) is) = 0"
      using Cons.prems Cons by (intro Cons.IH) simp_all
    with Cons.prems show ?thesis by simp
  qed
qed

lemma idle_run:
  "fsm_state s = IDLE \<Longrightarrow> clk_counter s = 0 \<Longrightarrow> list_all (\<lambda>k. \<not> start k \<and> \<not> init k) ks \<Longrightarrow>
   fsm_state (run p s ks) = IDLE \<and> clk_counter (run p s ks) = 0 \<and>
   initialized (run p s ks) = initialized s \<and> sync_init (run p s ks) = sync_init s"
  by (induction ks arbitrary: s) (simp_all add: step_IDLE_stay)

text \<open>
  C3. A transfer that leaves IDLE while an init is pending and the device is not yet
  initialized can be completed, and however long the device keeps the core waiting:
  the device reads exactly one word of \<open>data_width\<close> bits, the lowest segment of the
  latch, most significant bit first; \<^verbatim>\<open>initialized\<close> is low in every cycle of the
  transfer and high once the FSM is back in IDLE; no later cycle clears it; and a
  later \<^verbatim>\<open>start\<close> without \<^verbatim>\<open>init\<close>, after any number of idle cycles, sends the
  \<open>channels\<close> words of the latch as a normal transfer does.
\<close>

theorem init_transfer:
  assumes "valid p" and "fsm_state s = IDLE" and "clk_cnt_done s"
    and "start i \<or> init i" and "init_latch s i" and "\<not> initialized s"
  shows "(\<exists>is. completes p s (i # is)) \<and>
    (\<forall>is. completes p s (i # is) \<longrightarrow>
       receive (wire p s (i # is)) = frame (data_width p) (dataSPI i mod 2 ^ data_width p) \<and>
       list_all (\<lambda>t. \<not> initialized t) (visited p s (i # is)) \<and>
       initialized (run p s (i # is)) \<and>
       (\<forall>ks. initialized (run p (run p s (i # is)) ks)) \<and>
       (\<forall>ks i' js. list_all (\<lambda>k. \<not> start k \<and> \<not> init k) ks \<and> start i' \<and> \<not> init i' \<and>
            dataSPI i' < 2 ^ sr_width p \<and>
            completes p (run p (run p s (i # is)) ks) (i' # js) \<longrightarrow>
          receive (wire p (run p (run p s (i # is)) ks) (i' # js)) =
          concat (map (\<lambda>j. frame (data_width p) (slot p (channels p - 1 - j) (dataSPI i')))
                   [0..<channels p])))"
proof (intro conjI allI impI)
  have c: "clk_counter s = 0" using assms(3) by (simp add: clk_cnt_done_def)
  show "\<exists>is. completes p s (i # is)"
    using assms c by (intro request_can_complete) simp_all
  fix "is"
  assume cp: "completes p s (i # is)"
  let ?f = "run p s (i # is)"
  have ch: "0 < channels p" using assms(1) by (simp add: valid_iff)
  have "receive (wire p s (i # is)) = frames_from p (transfer_words p s i) (loaded p s i) 0"
    using assms c cp by (intro transfer_from_IDLE) simp_all
  also have "transfer_words p s i = 1" using assms by (simp add: transfer_words_def)
  also have "loaded p s i = init_word p (dataSPI i)" using assms by (simp add: loaded_def)
  also have "frames_from p 1 (init_word p (dataSPI i)) 0 = out_frame p (init_word p (dataSPI i)) 0"
    by (simp add: frames_from_def)
  also have "\<dots> = frame (data_width p) (slot p (channels p - 1 - 0) (init_word p (dataSPI i)))"
    using ch by (rule out_frame_slot)
  also have "slot p (channels p - 1 - 0) (init_word p (dataSPI i)) = dataSPI i mod 2 ^ data_width p"
    using ch by (simp add: init_word_slot)
  finally show "receive (wire p s (i # is)) =
      frame (data_width p) (dataSPI i mod 2 ^ data_width p)" .
  have st: "fsm_state (step p s i) = SETUP" "sync_init (step p s i)"
    "\<not> initialized (step p s i)"
    using assms c by (auto simp add: step_IDLE_go init_latch_def)
  from cp have v: "list_all (\<lambda>t. fsm_state t \<noteq> IDLE) (visited p (step p s i) is)"
    and r: "fsm_state (run p (step p s i) is) = IDLE"
    by (simp_all add: completes_def)
  from r st(1) have ne: "is \<noteq> []" by auto
  note fl = in_flight_run [OF v r st(2) st(3) ne]
  show "list_all (\<lambda>t. \<not> initialized t) (visited p s (i # is))"
    using fl assms by simp
  show ini: "initialized ?f" using fl by simp
  show "initialized (run p ?f ks)" for ks
    using ini by (rule initialized_run)
  fix ks i' js
  assume a: "list_all (\<lambda>k. \<not> start k \<and> \<not> init k) ks \<and> start i' \<and> \<not> init i' \<and>
      dataSPI i' < 2 ^ sr_width p \<and> completes p (run p ?f ks) (i' # js)"
  let ?g = "run p ?f ks"
  have f: "fsm_state ?f = IDLE" "clk_counter ?f = 0" using r fl by simp_all
  have g: "fsm_state ?g = IDLE" "clk_counter ?g = 0" "initialized ?g"
    using idle_run [OF f, of ks p] a ini by simp_all
  have "receive (wire p ?g (i' # js)) = frames_from p (transfer_words p ?g i') (loaded p ?g i') 0"
    using assms(1) g a by (intro transfer_from_IDLE) simp_all
  also have "transfer_words p ?g i' = channels p" using g by (simp add: transfer_words_def)
  also have "loaded p ?g i' = dataSPI i'" using g a by (simp add: loaded_def init_latch_def)
  finally show "receive (wire p ?g (i' # js)) =
      concat (map (\<lambda>j. frame (data_width p) (slot p (channels p - 1 - j) (dataSPI i')))
               [0..<channels p])"
    by (simp add: frames_from_slots)
qed

theorem init_transfer_witness:
  "valid ex_params \<and> fsm_state reset_state = IDLE \<and> clk_cnt_done reset_state \<and>
   init (req False True True 45) \<and> init_latch reset_state (req False True True 45) \<and>
   \<not> initialized reset_state \<and>
   completes ex_params reset_state (req False True True 45 # ex_word_inputs) \<and>
   receive (wire ex_params reset_state (req False True True 45 # ex_word_inputs))
     = [Bit True, Bit False, Bit True, EndWord] \<and>
   list_all (\<lambda>t. \<not> initialized t)
     (visited ex_params reset_state (req False True True 45 # ex_word_inputs)) \<and>
   initialized (run ex_params reset_state (req False True True 45 # ex_word_inputs)) \<and>
   initialized (run ex_params (run ex_params reset_state (req False True True 45 # ex_word_inputs))
     [req False True False 0]) \<and>
   completes ex_params
     (run ex_params (run ex_params reset_state (req False True True 45 # ex_word_inputs))
        [req False False True 0])
     (req True False True 44 # ex_word_inputs @ ex_word_inputs) \<and>
   receive (wire ex_params
     (run ex_params (run ex_params reset_state (req False True True 45 # ex_word_inputs))
        [req False False True 0])
     (req True False True 44 # ex_word_inputs @ ex_word_inputs))
     = [Bit True, Bit False, Bit True, EndWord, Bit True, Bit False, Bit False, EndWord]"
proof -
  let ?i = "req False True True 45"
  let ?f = "run ex_params reset_state (?i # ex_word_inputs)"
  let ?g = "run ex_params ?f [req False False True 0]"
  let ?j = "req True False True 44"
  have v: "valid ex_params" by (simp add: valid_iff ex_params_def)
  have s: "fsm_state reset_state = IDLE" "clk_cnt_done reset_state"
    by (simp_all add: reset_state_def clk_cnt_done_def)
  have i: "start ?i \<or> init ?i" "init_latch reset_state ?i" "\<not> initialized reset_state"
    by (simp_all add: req_def init_latch_def reset_state_def)
  have c: "completes ex_params reset_state (?i # ex_word_inputs)"
    by code_simp
  note r = init_transfer [OF v s i, THEN conjunct2, rule_format, OF c]
  have e1: "frame (data_width ex_params) (dataSPI ?i mod 2 ^ data_width ex_params) =
      [Bit True, Bit False, Bit True, EndWord]"
    by code_simp
  have k: "list_all (\<lambda>k. \<not> start k \<and> \<not> init k) [req False False True 0] \<and> start ?j \<and>
      \<not> init ?j \<and> dataSPI ?j < 2 ^ sr_width ex_params"
    by (simp add: req_def sr_width_def ex_params_def)
  have c2: "completes ex_params ?g (?j # ex_word_inputs @ ex_word_inputs)"
    by code_simp
  have e2: "concat (map (\<lambda>j. frame (data_width ex_params)
        (slot ex_params (channels ex_params - 1 - j) (dataSPI ?j))) [0..<channels ex_params])
      = [Bit True, Bit False, Bit True, EndWord, Bit True, Bit False, Bit False, EndWord]"
    by code_simp
  note r1 = r [THEN conjunct1]
  note r2 = r [THEN conjunct2, THEN conjunct1]
  note r3 = r [THEN conjunct2, THEN conjunct2, THEN conjunct1]
  note r4 = r [THEN conjunct2, THEN conjunct2, THEN conjunct2, THEN conjunct1, rule_format,
      of "[req False True False 0]"]
  note r5 = r [THEN conjunct2, THEN conjunct2, THEN conjunct2, THEN conjunct2, rule_format,
      of "[req False False True 0]" ?j "ex_word_inputs @ ex_word_inputs"]
  have r5': "receive (wire ex_params ?g (?j # ex_word_inputs @ ex_word_inputs))
     = [Bit True, Bit False, Bit True, EndWord, Bit True, Bit False, Bit False, EndWord]"
    using r5 k c2 e2 by simp
  have "init ?i" by (simp add: req_def)
  with v s i c r1 e1 r2 r3 r4 c2 r5' show ?thesis by simp
qed

subsection \<open>Chip select at the ticks of a transfer\<close>

lemma syncr_state:
  "syncr (fsm_act s i) = (fsm_state s \<noteq> SETUP \<and> fsm_state s \<noteq> HOLD \<and> fsm_state s \<noteq> DELAY)"
  by (cases "fsm_state s") (simp_all add: fsm_act_def fsm_default_def Let_def)

lemma bit_ticks_Suc: "bit_ticks (Suc b) = (SETUP, False) # (HOLD, False) # bit_ticks b"
  by (simp add: bit_ticks_def)

lemma bit_ticks_0: "bit_ticks 0 = [(SETUP, False), (DELAY, False)]"
  by (simp add: bit_ticks_def)

lemma shape_frame [simp]:
  "shape p (s\<lparr>clk_counter := c\<rparr>) T = shape p s T"
  "shape p (s\<lparr>sync_init := b\<rparr>) T = shape p s T"
  by (cases "fsm_state s"; simp add: shape_def ticks_from_def words_after_def)+

lemma shape_SETUP:
  assumes "fsm_state s = SETUP" "clk_counter s = 0" "shape p (step p s i) T"
  shows "shape p s ((SETUP, False) # T)"
proof (cases "bits s")
  case 0
  with assms show ?thesis
    by (auto simp add: step_SETUP shape_def ticks_from_def words_after_def bit_ticks_0)
next
  case (Suc b)
  with assms show ?thesis
    by (auto simp add: step_SETUP shape_def ticks_from_def words_after_def bit_ticks_Suc)
qed

lemma shape_HOLD:
  assumes "valid p" "in_transfer p nw L s" "nw \<le> channels p"
    and "fsm_state s = HOLD" "clk_counter s = 0" "shape p (step p s i) T"
  shows "shape p s ((HOLD, False) # T)"
proof -
  from assms have b: "0 < bits s" "bits s < data_width p"
    by (simp_all add: in_transfer_def)
  then have "dec (bits_width p) (bits s) = bits s - 1"
    using assms by (intro bits_dec) (simp_all add: valid_iff)
  with assms show ?thesis
    by (auto simp add: step_HOLD shape_def ticks_from_def words_after_def)
qed

lemma shape_DELAY:
  assumes "valid p" "in_transfer p nw L s" "nw \<le> channels p"
    and "fsm_state s = DELAY" "clk_counter s = 0" "shape p (step p s i) T"
  shows "shape p s ((DELAY, False) # T)"
proof -
  from assms have w: "0 < word_counter s" "word_counter s \<le> nw"
    by (simp_all add: in_transfer_def)
  then have "dec (word_counter_width p) (word_counter s) = word_counter s - 1"
    using assms by (intro word_dec) simp_all
  with assms show ?thesis
    by (auto simp add: step_DELAY shape_def ticks_from_def words_after_def)
qed

lemma shape_BUSY_LOW:
  assumes "fsm_state s = BUSY_LOW" "clk_counter s = 0" "shape p (step p s i) T"
  shows "shape p s ((BUSY_LOW, True) # T)"
proof (cases "busy i")
  case True
  with assms obtain w ws where w: "1 \<le> fst w" "1 \<le> snd w" "waits_ok ws"
    "length ws = word_counter s" "T = gap_ticks w @ transfer_ticks p ws"
    by (auto simp add: step_BUSY_LOW shape_def ticks_from_def words_after_def)
  have "(BUSY_LOW, True) # T = gap_ticks (Suc (fst w), snd w) @ transfer_ticks p ws"
    using w by (simp add: gap_ticks_def)
  with w assms show ?thesis
    unfolding shape_def ticks_from_def words_after_def
    by (intro exI [of _ "(Suc (fst w), snd w)"] exI [of _ ws]) simp
next
  case False
  with assms obtain w ws where w: "1 \<le> snd w" "waits_ok ws"
    "length ws = word_counter s" "T = replicate (snd w) (BUSY_HIGH, True) @ transfer_ticks p ws"
    by (auto simp add: step_BUSY_LOW shape_def ticks_from_def words_after_def)
  have "(BUSY_LOW, True) # T = gap_ticks (1, snd w) @ transfer_ticks p ws"
    using w by (simp add: gap_ticks_def)
  with w assms show ?thesis
    unfolding shape_def ticks_from_def words_after_def
    by (intro exI [of _ "(1, snd w)"] exI [of _ ws]) simp
qed

lemma shape_BUSY_HIGH:
  assumes "valid p" "fsm_state s = BUSY_HIGH" "clk_counter s = 0"
    and "fsm_state (step p s i) \<noteq> IDLE" "shape p (step p s i) T"
  shows "shape p s ((BUSY_HIGH, True) # T)"
proof (cases "busy i")
  case False
  with assms obtain w ws where w: "1 \<le> snd w" "waits_ok ws"
    "length ws = word_counter s" "T = replicate (snd w) (BUSY_HIGH, True) @ transfer_ticks p ws"
    by (auto simp add: step_BUSY_HIGH_wait shape_def ticks_from_def words_after_def)
  with assms show ?thesis
    unfolding shape_def ticks_from_def words_after_def
    by (intro exI [of _ "(1, Suc (snd w))"] exI [of _ ws]) simp
next
  case True
  with assms have n: "word_counter s \<noteq> 0"
    by (cases "word_counter s = 0") (simp_all add: step_BUSY_HIGH_done)
  with True assms obtain w ws where w: "1 \<le> fst w" "1 \<le> snd w" "waits_ok ws"
    "length ws = word_counter s - 1"
    "T = bit_ticks (data_width p - 1) @ gap_ticks w @ transfer_ticks p ws"
    by (auto simp add: step_BUSY_HIGH_next shape_def ticks_from_def words_after_def)
  have "T = transfer_ticks p (w # ws)"
    using w by (simp add: transfer_ticks_def word_ticks_def)
  with w n assms show ?thesis
    unfolding shape_def ticks_from_def words_after_def
    by (intro exI [of _ "(1, 1)"] exI [of _ "w # ws"]) (simp add: waits_ok_def)
qed

lemma tick_trace_shape:
  assumes "valid p" "0 < nw" "nw \<le> channels p"
  shows "in_transfer p nw L s \<Longrightarrow> list_all (\<lambda>t. fsm_state t \<noteq> IDLE) (visited p s is) \<Longrightarrow>
         fsm_state (run p s is) = IDLE \<Longrightarrow> shape p s (tick_trace p s is)"
proof (induction "is" arbitrary: s)
  case Nil
  then show ?case by (simp add: in_transfer_def)
next
  case (Cons i "is")
  show ?case
  proof (cases "is")
    case Nil
    with Cons.prems have "fsm_state (step p s i) = IDLE" by simp
    with Cons.prems have l: "fsm_state s = BUSY_HIGH" "clk_counter s = 0" "word_counter s = 0"
      using transfer_last by blast+
    have "shape p s [(BUSY_HIGH, True)]"
      unfolding shape_def ticks_from_def words_after_def
      using l by (intro exI [of _ "(1, 1)"] exI [of _ "[]"])
        (simp add: waits_ok_def transfer_ticks_def)
    with l Nil show ?thesis by (simp add: clk_cnt_done_def syncr_state)
  next
    case (Cons j js)
    with Cons.prems have n: "fsm_state (step p s i) \<noteq> IDLE" by simp
    have it: "in_transfer p nw L (step p s i)"
      using transfer_step [OF assms Cons.prems(1) n] by simp
    have ih: "shape p (step p s i) (tick_trace p (step p s i) is)"
      using Cons.prems it by (intro Cons.IH) simp_all
    show ?thesis
    proof (cases "clk_counter s = 0")
      case False
      with ih show ?thesis by (simp add: clk_cnt_done_def step_not_tick)
    next
      case True
      show ?thesis
      proof (cases "fsm_state s")
        case IDLE
        with Cons.prems show ?thesis by (simp add: in_transfer_def)
      next
        case SETUP
        with True ih show ?thesis
          by (simp add: clk_cnt_done_def syncr_state shape_SETUP)
      next
        case HOLD
        with True ih assms Cons.prems(1) show ?thesis
          by (simp add: clk_cnt_done_def syncr_state shape_HOLD)
      next
        case DELAY
        with True ih assms Cons.prems(1) show ?thesis
          by (simp add: clk_cnt_done_def syncr_state shape_DELAY)
      next
        case BUSY_LOW
        with True ih show ?thesis
          by (simp add: clk_cnt_done_def syncr_state shape_BUSY_LOW)
      next
        case BUSY_HIGH
        with True ih assms n show ?thesis
          by (simp add: clk_cnt_done_def syncr_state shape_BUSY_HIGH)
      qed
    qed
  qed
qed

lemma tick_trace_framing:
  assumes "valid p" and "fsm_state s = IDLE" and "clk_cnt_done s" and "start i \<or> init i"
    and "completes p s (i # is)"
  shows "\<exists>ws. length ws = transfer_words p s i \<and> waits_ok ws \<and>
           tick_trace p s (i # is) = (IDLE, True) # transfer_ticks p ws"
proof -
  have c: "clk_counter s = 0" using assms(3) by (simp add: clk_cnt_done_def)
  note l = leave_IDLE [OF assms(1,2) c assms(4)]
  note b = transfer_words_bounds [OF assms(1), of s i]
  from assms(5) have v: "list_all (\<lambda>t. fsm_state t \<noteq> IDLE) (visited p (step p s i) is)"
    and r: "fsm_state (run p (step p s i) is) = IDLE"
    by (simp_all add: completes_def)
  have "shape p (step p s i) (tick_trace p (step p s i) is)"
    using assms(1) b l(1) v r by (intro tick_trace_shape) simp_all
  then obtain w ws where w: "1 \<le> fst w" "1 \<le> snd w" "waits_ok ws"
    "length ws = words_after (step p s i)"
    "tick_trace p (step p s i) is = ticks_from p (step p s i) w ws"
    unfolding shape_def by blast
  have st: "word_counter (step p s i) = transfer_words p s i"
    "bits (step p s i) = data_width p - 1"
    using assms c by (simp_all add: step_IDLE_go transfer_words_def)
  have "tick_trace p (step p s i) is = transfer_ticks p (w # ws)"
    using w(5) l(2) st by (simp add: ticks_from_def transfer_ticks_def word_ticks_def)
  moreover have "length (w # ws) = transfer_words p s i"
    using w(4) l(2) st b by (simp add: words_after_def)
  moreover have "waits_ok (w # ws)" using w by (simp add: waits_ok_def)
  moreover have "tick_trace p s (i # is) = (IDLE, True) # tick_trace p (step p s i) is"
    using assms by (simp add: syncr_state)
  ultimately show ?thesis by metis
qed

subsection \<open>The timing of a burst\<close>

lemma run_append: "run p s (xs @ ys) = run p (run p s xs) ys"
  by (induction xs arbitrary: s) simp_all

lemma visited_append: "visited p s (xs @ ys) = visited p s xs @ visited p (run p s xs) ys"
  by (induction xs arbitrary: s) simp_all

lemma tick_trace_append:
  "tick_trace p s (xs @ ys) = tick_trace p s xs @ tick_trace p (run p s xs) ys"
  by (induction xs arbitrary: s) simp_all

lemma dwell:
  assumes "\<not> init q"
  shows "clk_counter s = n \<Longrightarrow> n < clk_width p \<Longrightarrow>
     run p s (replicate n q) = s\<lparr>clk_counter := 0\<rparr> \<and>
     tick_trace p s (replicate n q) = [] \<and>
     list_all (\<lambda>t. fsm_state t = fsm_state s) (visited p s (replicate n q))"
proof (induction n arbitrary: s)
  case 0
  then show ?case by simp
next
  case (Suc n)
  then have d: "dec (clk_counter_width p) (clk_counter s) = n"
    using clk_dec [of "clk_counter s" p] by simp
  have st: "step p s q = s\<lparr>clk_counter := n\<rparr>"
    using Suc.prems assms d by (simp add: step_not_tick clk_cnt_done_def)
  have "run p (s\<lparr>clk_counter := n\<rparr>) (replicate n q) = s\<lparr>clk_counter := n\<rparr>\<lparr>clk_counter := 0\<rparr> \<and>
     tick_trace p (s\<lparr>clk_counter := n\<rparr>) (replicate n q) = [] \<and>
     list_all (\<lambda>t. fsm_state t = fsm_state (s\<lparr>clk_counter := n\<rparr>))
       (visited p (s\<lparr>clk_counter := n\<rparr>) (replicate n q))"
    using Suc.prems by (intro Suc.IH) simp_all
  with Suc.prems show ?case by (simp add: st clk_cnt_done_def)
qed

lemma fsm_act_clk [simp]: "fsm_act (s\<lparr>clk_counter := c\<rparr>) i = fsm_act s i"
  by (cases "fsm_state s") (simp_all add: fsm_act_def fsm_default_def Let_def)

lemma period:
  assumes "valid p" "\<not> init q" "clk_counter s = clk_width p - 1"
  shows "run p s (replicate (clk_width p) q) = step p (s\<lparr>clk_counter := 0\<rparr>) q"
    and "tick_trace p s (replicate (clk_width p) q) = [(fsm_state s, syncr (fsm_act s q))]"
    and "list_all (\<lambda>t. fsm_state t = fsm_state s) (visited p s (replicate (clk_width p) q))"
proof -
  obtain n where n: "clk_width p = Suc n"
    using assms(1) by (cases "clk_width p") (auto simp add: valid_iff)
  have r: "replicate (clk_width p) q = replicate n q @ [q]"
    unfolding n by (simp add: replicate_append_same)
  note d = dwell [OF assms(2), of s n p]
  have c: "clk_counter s = n" "n < clk_width p" using assms(3) n by simp_all
  show "run p s (replicate (clk_width p) q) = step p (s\<lparr>clk_counter := 0\<rparr>) q"
    unfolding r run_append using d c by simp
  show "tick_trace p s (replicate (clk_width p) q) = [(fsm_state s, syncr (fsm_act s q))]"
    unfolding r tick_trace_append using d c by (simp add: clk_cnt_done_def)
  show "list_all (\<lambda>t. fsm_state t = fsm_state s) (visited p s (replicate (clk_width p) q))"
    unfolding r visited_append using d c by simp
qed

lemma period_SETUP:
  assumes "valid p" "\<not> init q" "fsm_state s = SETUP" "clk_counter s = clk_width p - 1"
  shows "fsm_state (run p s (replicate (clk_width p) q)) = (if bits s = 0 then DELAY else HOLD) \<and>
     clk_counter (run p s (replicate (clk_width p) q)) = clk_width p - 1 \<and>
     bits (run p s (replicate (clk_width p) q)) = bits s \<and>
     word_counter (run p s (replicate (clk_width p) q)) = word_counter s \<and>
     tick_trace p s (replicate (clk_width p) q) = [(SETUP, False)] \<and>
     list_all (\<lambda>t. fsm_state t \<noteq> IDLE) (visited p s (replicate (clk_width p) q))"
  using period [OF assms(1,2,4)] assms(3)
  by (auto simp add: step_SETUP syncr_state list_all_iff)

lemma period_HOLD:
  assumes "valid p" "\<not> init q" "fsm_state s = HOLD" "clk_counter s = clk_width p - 1"
  shows "fsm_state (run p s (replicate (clk_width p) q)) = SETUP \<and>
     clk_counter (run p s (replicate (clk_width p) q)) = clk_width p - 1 \<and>
     bits (run p s (replicate (clk_width p) q)) = dec (bits_width p) (bits s) \<and>
     word_counter (run p s (replicate (clk_width p) q)) = word_counter s \<and>
     tick_trace p s (replicate (clk_width p) q) = [(HOLD, False)] \<and>
     list_all (\<lambda>t. fsm_state t \<noteq> IDLE) (visited p s (replicate (clk_width p) q))"
  using period [OF assms(1,2,4)] assms(3)
  by (auto simp add: step_HOLD syncr_state list_all_iff)

lemma period_DELAY:
  assumes "valid p" "\<not> init q" "fsm_state s = DELAY" "clk_counter s = clk_width p - 1"
  shows "fsm_state (run p s (replicate (clk_width p) q)) = BUSY_LOW \<and>
     clk_counter (run p s (replicate (clk_width p) q)) = 0 \<and>
     word_counter (run p s (replicate (clk_width p) q)) =
       dec (word_counter_width p) (word_counter s) \<and>
     tick_trace p s (replicate (clk_width p) q) = [(DELAY, False)] \<and>
     list_all (\<lambda>t. fsm_state t \<noteq> IDLE) (visited p s (replicate (clk_width p) q))"
  using period [OF assms(1,2,4)] assms(3)
  by (auto simp add: step_DELAY syncr_state list_all_iff)

lemma bits_run:
  assumes "valid p" "\<not> init q"
  shows "fsm_state s = SETUP \<Longrightarrow> clk_counter s = clk_width p - 1 \<Longrightarrow> bits s = b \<Longrightarrow>
     b < data_width p \<Longrightarrow> 0 < word_counter s \<Longrightarrow> word_counter s \<le> channels p \<Longrightarrow>
     fsm_state (run p s (replicate ((2 * b + 2) * clk_width p) q)) = BUSY_LOW \<and>
     clk_counter (run p s (replicate ((2 * b + 2) * clk_width p) q)) = 0 \<and>
     word_counter (run p s (replicate ((2 * b + 2) * clk_width p) q)) = word_counter s - 1 \<and>
     tick_trace p s (replicate ((2 * b + 2) * clk_width p) q) = bit_ticks b \<and>
     list_all (\<lambda>t. fsm_state t \<noteq> IDLE) (visited p s (replicate ((2 * b + 2) * clk_width p) q))"
proof (induction b arbitrary: s)
  case 0
  let ?c = "clk_width p"
  let ?s1 = "run p s (replicate ?c q)"
  have r: "replicate ((2 * 0 + 2) * ?c) q = replicate ?c q @ replicate ?c q"
    by (simp add: replicate_add [symmetric])
  note a = period_SETUP [OF assms "0.prems"(1,2)]
  have s1: "fsm_state ?s1 = DELAY" "clk_counter ?s1 = ?c - 1"
    using a "0.prems" by simp_all
  note b = period_DELAY [OF assms s1]
  have "dec (word_counter_width p) (word_counter s) = word_counter s - 1"
    using "0.prems" by (intro word_dec) simp_all
  with a b show ?case
    unfolding r run_append tick_trace_append visited_append
    by (simp add: bit_ticks_0)
next
  case (Suc b)
  let ?c = "clk_width p"
  let ?s1 = "run p s (replicate ?c q)"
  let ?s2 = "run p ?s1 (replicate ?c q)"
  let ?n = "(2 * b + 2) * ?c"
  have r: "replicate ((2 * Suc b + 2) * ?c) q = replicate ?c q @ replicate ?c q @ replicate ?n q"
    by (simp add: replicate_add [symmetric] algebra_simps)
  note a = period_SETUP [OF assms Suc.prems(1,2)]
  have s1: "fsm_state ?s1 = HOLD" "clk_counter ?s1 = ?c - 1"
    using a Suc.prems by simp_all
  note h = period_HOLD [OF assms s1]
  have d: "dec (bits_width p) (Suc b) = b"
    using bits_dec [of "Suc b" p] Suc.prems by simp
  have s2: "fsm_state ?s2 = SETUP" "clk_counter ?s2 = ?c - 1" "bits ?s2 = b"
    "word_counter ?s2 = word_counter s"
    using h a d Suc.prems by simp_all
  have ih: "fsm_state (run p ?s2 (replicate ?n q)) = BUSY_LOW \<and>
     clk_counter (run p ?s2 (replicate ?n q)) = 0 \<and>
     word_counter (run p ?s2 (replicate ?n q)) = word_counter ?s2 - 1 \<and>
     tick_trace p ?s2 (replicate ?n q) = bit_ticks b \<and>
     list_all (\<lambda>t. fsm_state t \<noteq> IDLE) (visited p ?s2 (replicate ?n q))"
    using s2 Suc.prems by (intro Suc.IH) simp_all
  from a h ih s2 show ?case
    unfolding r run_append tick_trace_append visited_append
    by (simp add: bit_ticks_Suc)
qed

lemma word_run:
  assumes "valid p" "fsm_state s = SETUP" "clk_counter s = clk_width p - 1"
    and "bits s = data_width p - 1" "0 < word_counter s" "word_counter s \<le> channels p"
  shows "fsm_state (run p s (word_inputs p d)) = (if word_counter s = 1 then IDLE else SETUP) \<and>
     clk_counter (run p s (word_inputs p d)) = (if word_counter s = 1 then 0 else clk_width p - 1) \<and>
     bits (run p s (word_inputs p d)) = data_width p - 1 \<and>
     word_counter (run p s (word_inputs p d)) = word_counter s - 1 \<and>
     tick_trace p s (word_inputs p d) = word_ticks p @ gap_ticks (1, 2) \<and>
     list_all (\<lambda>t. fsm_state t \<noteq> IDLE) (visited p s (word_inputs p d))"
proof -
  define q where "q = req False False True d"
  define l where "l = req False False False d"
  define xs where "xs = replicate ((2 * (data_width p - 1) + 2) * clk_width p) q"
  define r where "r = run p s xs"
  define r1 where "r1 = step p r l"
  define r2 where "r2 = step p r1 l"
  define r3 where "r3 = step p r2 q"
  have q: "\<not> init q" "busy q" "\<not> init l" "\<not> busy l" by (simp_all add: q_def l_def req_def)
  have dw: "0 < data_width p" using assms(1) by (simp add: valid_iff)
  then have n: "2 * data_width p * clk_width p = (2 * (data_width p - 1) + 2) * clk_width p"
    by (cases "data_width p") simp_all
  have b: "data_width p - 1 < data_width p" using dw by simp
  note br = bits_run [OF assms(1) q(1) assms(2,3,4) b assms(5,6), folded xs_def r_def]
  have r: "fsm_state r = BUSY_LOW" "clk_counter r = 0" "word_counter r = word_counter s - 1"
    and tr: "tick_trace p s xs = bit_ticks (data_width p - 1)"
    and vr: "list_all (\<lambda>t. fsm_state t \<noteq> IDLE) (visited p s xs)"
    using br by blast+
  have r1: "fsm_state r1 = BUSY_HIGH" "clk_counter r1 = 0" "word_counter r1 = word_counter s - 1"
    unfolding r1_def using r q by (simp_all add: step_BUSY_LOW)
  have r2: "fsm_state r2 = BUSY_HIGH" "clk_counter r2 = 0" "word_counter r2 = word_counter s - 1"
    unfolding r2_def using r1 q by (simp_all add: step_BUSY_HIGH_wait)
  have r3: "fsm_state r3 = (if word_counter s = 1 then IDLE else SETUP) \<and>
    clk_counter r3 = (if word_counter s = 1 then 0 else clk_width p - 1) \<and>
    bits r3 = data_width p - 1 \<and> word_counter r3 = word_counter s - 1"
  proof (cases "word_counter s = 1")
    case True
    with r2 q show ?thesis unfolding r3_def by (simp add: step_BUSY_HIGH_done)
  next
    case False
    with r2 q assms(5) show ?thesis unfolding r3_def by (simp add: step_BUSY_HIGH_next)
  qed
  have sy: "syncr (fsm_act r l) = True" "syncr (fsm_act r1 l) = True" "syncr (fsm_act r2 q) = True"
    using r r1 r2 by (simp_all add: syncr_state)
  have t: "tick_trace p r [l, l, q] = gap_ticks (1, 2)"
    using r r1 r2 sy
    by (simp add: clk_cnt_done_def gap_ticks_def numeral_2_eq_2
        flip: r1_def r2_def r3_def)
  have v: "list_all (\<lambda>t. fsm_state t \<noteq> IDLE) (visited p r [l, l, q])"
    using r r1 r2 by (simp flip: r1_def r2_def r3_def)
  have e: "run p r [l, l, q] = r3"
    by (simp add: r1_def r2_def r3_def)
  have w: "word_inputs p d = xs @ [l, l, q]"
    by (simp add: word_inputs_def n xs_def q_def l_def)
  have "run p s (word_inputs p d) = r3"
    unfolding w run_append using e by (simp add: r_def)
  moreover have "tick_trace p s (word_inputs p d) = word_ticks p @ gap_ticks (1, 2)"
    unfolding w tick_trace_append using tr t by (simp add: r_def word_ticks_def)
  moreover have "list_all (\<lambda>t. fsm_state t \<noteq> IDLE) (visited p s (word_inputs p d))"
    unfolding w visited_append using vr v by (simp add: r_def)
  ultimately show ?thesis using r3 by simp
qed

lemma words_run:
  assumes "valid p"
  shows "fsm_state s = SETUP \<Longrightarrow> clk_counter s = clk_width p - 1 \<Longrightarrow>
     bits s = data_width p - 1 \<Longrightarrow> word_counter s = w \<Longrightarrow> 0 < w \<Longrightarrow> w \<le> channels p \<Longrightarrow>
     fsm_state (run p s (concat (replicate w (word_inputs p d)))) = IDLE \<and>
     clk_counter (run p s (concat (replicate w (word_inputs p d)))) = 0 \<and>
     tick_trace p s (concat (replicate w (word_inputs p d))) = transfer_ticks p (replicate w (1, 2)) \<and>
     list_all (\<lambda>t. fsm_state t \<noteq> IDLE) (visited p s (concat (replicate w (word_inputs p d))))"
proof (induction w arbitrary: s)
  case 0
  then show ?case by simp
next
  case (Suc w)
  let ?x = "word_inputs p d"
  let ?r = "run p s ?x"
  have p: "0 < word_counter s" "word_counter s \<le> channels p" using Suc.prems by simp_all
  note wr = word_run [OF assms Suc.prems(1,2,3) p, of d]
  show ?case
  proof (cases "w = 0")
    case True
    with wr Suc.prems show ?thesis by (simp add: transfer_ticks_def)
  next
    case False
    with wr Suc.prems have r: "fsm_state ?r = SETUP" "clk_counter ?r = clk_width p - 1"
      "bits ?r = data_width p - 1" "word_counter ?r = w" "0 < w" "w \<le> channels p"
      by simp_all
    note ih = Suc.IH [OF r]
    from wr ih show ?thesis
      unfolding replicate_Suc concat.simps run_append tick_trace_append visited_append
      by (simp add: transfer_ticks_def)
  qed
qed

lemma burst_run:
  assumes "valid p" "fsm_state s = IDLE" "clk_counter s = 0"
    and "\<not> init_latch s (req True False True d)"
  shows "completes p s (burst p d)"
    and "clk_counter (run p s (burst p d)) = 0"
    and "tick_trace p s (burst p d) = (IDLE, True) # transfer_ticks p (replicate (channels p) (1, 2))"
proof -
  let ?i = "req True False True d"
  let ?s1 = "step p s ?i"
  have i: "start ?i" by (simp add: req_def)
  have ch: "0 < channels p" using assms(1) by (simp add: valid_iff)
  have s1: "fsm_state ?s1 = SETUP" "clk_counter ?s1 = clk_width p - 1"
    "bits ?s1 = data_width p - 1" "word_counter ?s1 = channels p"
    using assms i by (simp_all add: step_IDLE_go)
  note w = words_run [OF assms(1) s1 ch order_refl, of d]
  show "completes p s (burst p d)"
    using w by (simp add: completes_def burst_def)
  show "clk_counter (run p s (burst p d)) = 0"
    using w by (simp add: burst_def)
  show "tick_trace p s (burst p d) = (IDLE, True) # transfer_ticks p (replicate (channels p) (1, 2))"
    using w assms by (simp add: burst_def clk_cnt_done_def syncr_state)
qed

lemma length_bit_ticks: "length (bit_ticks b) = 2 * b + 2"
  by (induction b) (simp_all add: bit_ticks_0 bit_ticks_Suc)

lemma length_transfer_ticks:
  "0 < data_width p \<Longrightarrow>
   length (transfer_ticks p (replicate n w)) = n * (data_width p * 2 + (fst w + snd w))"
  by (induction n) (simp_all add: transfer_ticks_def word_ticks_def gap_ticks_def length_bit_ticks)

lemma scenario_burst: "scenario_inputs d = burst scenario_params d"
  by (simp add: scenario_inputs_def burst_def word_inputs_def scenario_params_def)

text \<open>
  C8. With 4 channels of 24 bits and a clock divisor of 4, \<^verbatim>\<open>start\<close> asserted for
  one cycle while \<^verbatim>\<open>ready\<close> is high and no init pending, and \<^verbatim>\<open>busy\<close> low for two
  ticks after each word and then high: the inputs are one whole transfer, its ticks are
  the IDLE tick that accepts \<^verbatim>\<open>start\<close> and, for each of the 4 words, 24 SETUP ticks, 23
  HOLD ticks, the DELAY tick, one \<^verbatim>\<open>BUSY_LOW\<close> tick and two \<^verbatim>\<open>BUSY_HIGH\<close> ticks, that is
  \<open>4 * (24 * 2 + 3) + 1\<close> ticks counted from the accepting tick, and after them the FSM
  is in IDLE with \<^verbatim>\<open>ready\<close> high.
\<close>

theorem scenario_ticks:
  assumes "ready (fsm_act s (req True False True d))" and "clk_cnt_done s"
    and "\<not> init_latch s (req True False True d)"
  shows "completes scenario_params s (scenario_inputs d) \<and>
     tick_trace scenario_params s (scenario_inputs d) =
       (IDLE, True) # transfer_ticks scenario_params (replicate 4 (1, 2)) \<and>
     length (tick_trace scenario_params s (scenario_inputs d)) = 4 * (24 * 2 + 3) + 1 \<and>
     ready (fsm_act (run scenario_params s (scenario_inputs d)) j)"
proof -
  have v: "valid scenario_params" by (simp add: valid_iff scenario_params_def)
  have f: "fsm_state s = IDLE"
    using assms(1)
    by (cases "fsm_state s") (simp_all add: fsm_act_def fsm_default_def Let_def split: if_splits)
  have c: "clk_counter s = 0" using assms(2) by (simp add: clk_cnt_done_def)
  note b = burst_run [OF v f c assms(3)]
  have t: "tick_trace scenario_params s (scenario_inputs d) =
       (IDLE, True) # transfer_ticks scenario_params (replicate 4 (1, 2))"
    using b(3) by (simp add: scenario_burst) (simp add: scenario_params_def)
  have l: "length (transfer_ticks scenario_params (replicate 4 (1, 2))) = 4 * (24 * 2 + 3)"
    by (subst length_transfer_ticks) (simp_all add: scenario_params_def)
  have r: "ready (fsm_act (run scenario_params s (scenario_inputs d)) j)"
    using b(1) by (simp add: scenario_burst completes_def fsm_act_def fsm_default_def Let_def)
  from b(1) t l r show ?thesis by (simp add: scenario_burst)
qed

theorem scenario_ticks_witness:
  "ready (fsm_act reset_state (req True False True 0xA5A5A5123456FFFF0000F0F1)) \<and>
   clk_cnt_done reset_state \<and>
   \<not> init_latch reset_state (req True False True 0xA5A5A5123456FFFF0000F0F1) \<and>
   completes scenario_params reset_state (scenario_inputs 0xA5A5A5123456FFFF0000F0F1) \<and>
   length (tick_trace scenario_params reset_state (scenario_inputs 0xA5A5A5123456FFFF0000F0F1))
     = 205 \<and>
   ready (fsm_act (run scenario_params reset_state (scenario_inputs 0xA5A5A5123456FFFF0000F0F1))
     (req False False True 0))"
proof -
  let ?d = "0xA5A5A5123456FFFF0000F0F1 :: nat"
  have a: "ready (fsm_act reset_state (req True False True ?d))" "clk_cnt_done reset_state"
    "\<not> init_latch reset_state (req True False True ?d)"
    by (simp_all add: fsm_act_def fsm_default_def reset_state_def clk_cnt_done_def
        init_latch_def req_def)
  note r = scenario_ticks [OF a, of "req False False True 0"]
  note r1 = r [THEN conjunct1]
  note r4 = r [THEN conjunct2, THEN conjunct2, THEN conjunct2]
  have l: "length (tick_trace scenario_params reset_state (scenario_inputs ?d)) = 205"
    using r [THEN conjunct2, THEN conjunct2, THEN conjunct1] by simp
  from a r1 l r4 show ?thesis by blast
qed

subsection \<open>Chip select around each word, cycle by cycle\<close>

lemma cycle_trace_append:
  "cycle_trace p s (xs @ ys) = cycle_trace p s xs @ cycle_trace p (run p s xs) ys"
  by (induction xs arbitrary: s) simp_all

lemma to_IDLE:
  assumes "fsm_state s \<noteq> IDLE" "fsm_state (step p s i) = IDLE"
  shows "fsm_state s = BUSY_HIGH \<and> clk_counter s = 0"
  using assms
  by (cases "clk_counter s = 0"; cases "fsm_state s")
     (simp_all add: step_not_tick clk_cnt_done_def step_SETUP step_HOLD step_DELAY step_BUSY_LOW
       split: if_splits)

lemma clocked_tick:
  assumes "valid p" "fsm_state s \<noteq> IDLE" "clk_counter s = 0" "fsm_state (step p s i) \<noteq> IDLE"
  shows "clocked p (step p s i) \<and> lead p (step p s i) = 0"
proof -
  have c: "0 < clk_width p" using assms(1) by (simp add: valid_iff)
  show ?thesis
  proof (cases "fsm_state s")
    case BUSY_HIGH
    show ?thesis
    proof (cases "busy i")
      case True
      with BUSY_HIGH assms have "word_counter s \<noteq> 0"
        by (cases "word_counter s = 0") (simp_all add: step_BUSY_HIGH_done)
      with True BUSY_HIGH assms c show ?thesis
        by (simp add: step_BUSY_HIGH_next clocked_def lead_def slow_def)
    next
      case False
      with BUSY_HIGH assms show ?thesis
        by (simp add: step_BUSY_HIGH_wait clocked_def lead_def slow_def)
    qed
  qed (use assms c in \<open>simp_all add: step_SETUP step_HOLD step_DELAY step_BUSY_LOW
        clocked_def lead_def slow_def\<close>)
qed

lemma clocked_wait:
  assumes "clocked p s" "clk_counter s \<noteq> 0"
  shows "step p s i = s\<lparr>clk_counter := clk_counter s - 1, sync_init := (init i \<or> sync_init s)\<rparr>"
    and "slow (fsm_state s)" and "clocked p (step p s i)"
    and "lead p (step p s i) = Suc (lead p s)"
proof -
  from assms have s: "slow (fsm_state s)" and l: "clk_counter s < clk_width p"
    by (simp_all add: clocked_def split: if_splits)
  have d: "dec (clk_counter_width p) (clk_counter s) = clk_counter s - 1"
    using assms l by (intro clk_dec) simp_all
  show st: "step p s i =
      s\<lparr>clk_counter := clk_counter s - 1, sync_init := (init i \<or> sync_init s)\<rparr>"
    using assms by (simp add: step_not_tick clk_cnt_done_def d)
  show "slow (fsm_state s)" by (rule s)
  show "clocked p (step p s i)" using s l by (simp add: st clocked_def)
  show "lead p (step p s i) = Suc (lead p s)" using s l assms by (simp add: st lead_def)
qed

lemma cycles_of_Cons: "cycles_of p (x # T) = replicate (duration p (fst x)) x @ cycles_of p T"
  by (simp add: cycles_of_def)

lemma cycles_of_append: "cycles_of p (xs @ ys) = cycles_of p xs @ cycles_of p ys"
  by (simp add: cycles_of_def)

lemma cycles_of_Nil [simp]: "cycles_of p [] = []"
  by (simp add: cycles_of_def)

lemma cycle_expand:
  assumes "valid p"
  shows "fsm_state s \<noteq> IDLE \<Longrightarrow> clocked p s \<Longrightarrow>
     list_all (\<lambda>t. fsm_state t \<noteq> IDLE) (visited p s is) \<Longrightarrow> fsm_state (run p s is) = IDLE \<Longrightarrow>
     replicate (lead p s) (fsm_state s, \<not> slow (fsm_state s)) @ cycle_trace p s is =
     cycles_of p (tick_trace p s is)"
proof (induction "is" arbitrary: s)
  case Nil
  then show ?case by simp
next
  case (Cons i "is")
  let ?x = "(fsm_state s, \<not> slow (fsm_state s))"
  have x: "(fsm_state s, syncr (fsm_act s i)) = ?x"
    by (simp add: syncr_state slow_def)
  have c: "0 < clk_width p" using assms by (simp add: valid_iff)
  show ?case
  proof (cases "is")
    case Nil
    with Cons.prems have "fsm_state (step p s i) = IDLE" by simp
    with Cons.prems have "fsm_state s = BUSY_HIGH" "clk_counter s = 0"
      using to_IDLE by blast+
    with Nil show ?thesis
      by (simp add: x lead_def slow_def clk_cnt_done_def cycles_of_Cons duration_def)
  next
    case (Cons j js)
    with Cons.prems have n: "fsm_state (step p s i) \<noteq> IDLE" by simp
    show ?thesis
    proof (cases "clk_counter s = 0")
      case True
      note t = clocked_tick [OF assms Cons.prems(1) True n]
      have ih: "replicate (lead p (step p s i)) (fsm_state (step p s i), \<not> slow (fsm_state (step p s i)))
          @ cycle_trace p (step p s i) is = cycles_of p (tick_trace p (step p s i) is)"
        using Cons.prems n t by (intro Cons.IH) simp_all
      have "Suc (lead p s) = duration p (fsm_state s)"
        using True c by (simp add: lead_def duration_def)
      then have "replicate (lead p s) ?x @ [?x] = replicate (duration p (fsm_state s)) ?x"
        by (metis replicate_Suc replicate_append_same)
      with ih t True show ?thesis
        by (simp add: x clk_cnt_done_def cycles_of_Cons)
    next
      case False
      note w1 = clocked_wait(1) [OF Cons.prems(2) False, where i = i]
      note w3 = clocked_wait(3) [OF Cons.prems(2) False, where i = i]
      note w4 = clocked_wait(4) [OF Cons.prems(2) False, where i = i]
      have f: "fsm_state (step p s i) = fsm_state s" by (simp add: w1)
      have ih: "replicate (lead p (step p s i)) (fsm_state (step p s i), \<not> slow (fsm_state (step p s i)))
          @ cycle_trace p (step p s i) is = cycles_of p (tick_trace p (step p s i) is)"
        using Cons.prems n w3 by (intro Cons.IH) simp_all
      have a: "replicate (lead p s) ?x @ [?x] = replicate (lead p (step p s i)) ?x"
        unfolding w4 by (simp add: replicate_append_same)
      have "replicate (lead p s) ?x @ cycle_trace p s (i # is) =
          (replicate (lead p s) ?x @ [?x]) @ cycle_trace p (step p s i) is"
        by (simp add: x)
      also have "\<dots> = cycles_of p (tick_trace p (step p s i) is)"
        unfolding a using ih by (simp add: f)
      also have "tick_trace p (step p s i) is = tick_trace p s (i # is)"
        using False by (simp add: clk_cnt_done_def)
      finally show ?thesis .
    qed
  qed
qed

lemma cycles_of_bit_ticks:
  "cycles_of p (bit_ticks b) =
     concat (replicate b
       (replicate (clk_width p) (SETUP, False) @ replicate (clk_width p) (HOLD, False))) @
     replicate (clk_width p) (SETUP, False) @ replicate (clk_width p) (DELAY, False)"
  by (induction b)
     (simp_all add: bit_ticks_0 bit_ticks_Suc cycles_of_Cons duration_def slow_def)

lemma cycles_of_fast: "\<not> slow (fst x) \<Longrightarrow> cycles_of p (replicate n x) = replicate n x"
  by (induction n) (simp_all add: cycles_of_Cons duration_def)

lemma cycles_of_gap: "cycles_of p (gap_ticks w) = gap_ticks w"
  by (simp add: gap_ticks_def cycles_of_append cycles_of_fast slow_def)

lemma cycles_of_transfer: "cycles_of p (transfer_ticks p ws) = transfer_cycles p ws"
  by (induction ws)
     (simp_all add: transfer_ticks_def transfer_cycles_def cycles_of_append cycles_of_gap
       word_ticks_def word_cycles_def cycles_of_bit_ticks)

lemma clocked_bound: "valid p \<Longrightarrow> clocked p s \<Longrightarrow> clk_counter s < clk_width p"
  by (simp add: clocked_def valid_iff split: if_splits)

lemma invariants_run:
  assumes "valid p" "0 < nw" "nw \<le> channels p"
  shows "in_transfer p nw L s \<Longrightarrow> clocked p s \<Longrightarrow>
     list_all (\<lambda>t. fsm_state t \<noteq> IDLE) (visited p s is) \<Longrightarrow> fsm_state (run p s is) \<noteq> IDLE \<Longrightarrow>
     in_transfer p nw L (run p s is) \<and> clocked p (run p s is)"
proof (induction "is" arbitrary: s)
  case Nil
  then show ?case by simp
next
  case (Cons i "is")
  have n: "fsm_state (step p s i) \<noteq> IDLE"
    using Cons.prems by (cases "is") simp_all
  have s: "fsm_state s \<noteq> IDLE" using Cons.prems by simp
  have it: "in_transfer p nw L (step p s i)"
    using transfer_step [OF assms Cons.prems(1) n] by simp
  have cl: "clocked p (step p s i)"
  proof (cases "clk_counter s = 0")
    case True
    then show ?thesis using clocked_tick [OF assms(1) s True n] by simp
  next
    case False
    then show ?thesis using clocked_wait(3) [OF Cons.prems(2) False] by simp
  qed
  from Cons.prems it cl show ?case by (simp add: Cons.IH)
qed

lemma cycle_trace_complete:
  assumes "valid p" and "fsm_state s = IDLE" and "clk_cnt_done s" and "start i \<or> init i"
    and "completes p s (i # is)"
  shows "\<exists>ws. length ws = transfer_words p s i \<and> waits_ok ws \<and>
           cycle_trace p s (i # is) = (IDLE, True) # transfer_cycles p ws"
proof -
  have c: "clk_counter s = 0" using assms(3) by (simp add: clk_cnt_done_def)
  note l = leave_IDLE [OF assms(1,2) c assms(4)]
  let ?s1 = "step p s i"
  have k: "clk_counter ?s1 = clk_width p - 1"
    using assms c by (simp add: step_IDLE_go)
  have cl: "clocked p ?s1" "lead p ?s1 = 0"
    using l(2,4) k by (simp_all add: clocked_def lead_def slow_def)
  from assms(5) have v: "list_all (\<lambda>t. fsm_state t \<noteq> IDLE) (visited p ?s1 is)"
    and r: "fsm_state (run p ?s1 is) = IDLE"
    by (simp_all add: completes_def)
  have "cycle_trace p ?s1 is = cycles_of p (tick_trace p ?s1 is)"
    using cycle_expand [OF assms(1) _ cl(1) v r] l(2) cl(2) by simp
  moreover have "cycle_trace p s (i # is) = (IDLE, True) # cycle_trace p ?s1 is"
    using assms(2) by (simp add: syncr_state)
  moreover have "tick_trace p s (i # is) = (IDLE, True) # tick_trace p ?s1 is"
    using assms(2,3) by (simp add: syncr_state)
  ultimately have e: "cycle_trace p s (i # is) = cycles_of p (tick_trace p s (i # is))"
    by (simp add: cycles_of_Cons duration_def slow_def)
  from tick_trace_framing [OF assms] obtain ws where ws: "length ws = transfer_words p s i"
    "waits_ok ws" "tick_trace p s (i # is) = (IDLE, True) # transfer_ticks p ws"
    by blast
  have "cycle_trace p s (i # is) = (IDLE, True) # transfer_cycles p ws"
    unfolding e ws(3) by (simp add: cycles_of_Cons duration_def slow_def cycles_of_transfer)
  with ws show ?thesis by blast
qed

text \<open>
  C4. In every transfer, complete or not and whatever the device does on \<^verbatim>\<open>busy\<close>,
  the cycles from the accepted request on are the beginning of, and for a transfer that
  has returned to IDLE are exactly, the following: the IDLE cycle of the request and
  then for each word in turn chip select low in every cycle of the SETUP and HOLD
  states of all bits and of the DELAY state that follows the last bit, each of these
  states lasting \<open>clk_width\<close> cycles, then chip select high in at least one
  \<^verbatim>\<open>BUSY_LOW\<close> cycle and at least one \<^verbatim>\<open>BUSY_HIGH\<close> cycle, each of them a tick,
  before the next word begins.
\<close>

theorem chip_select_framing:
  assumes "valid p" and "fsm_state s = IDLE" and "clk_cnt_done s" and "start i \<or> init i"
    and "list_all (\<lambda>t. fsm_state t \<noteq> IDLE) (tl (visited p s (i # is)))"
  shows "\<exists>ws rest. length ws = transfer_words p s i \<and> waits_ok ws \<and>
           cycle_trace p s (i # is) @ rest = (IDLE, True) # transfer_cycles p ws \<and>
           (rest = [] \<longleftrightarrow> fsm_state (run p s (i # is)) = IDLE)"
proof (cases "fsm_state (run p s (i # is)) = IDLE")
  case True
  with assms(5) have "completes p s (i # is)" by (simp add: completes_def)
  from cycle_trace_complete [OF assms(1-4) this] obtain ws where
    "length ws = transfer_words p s i" "waits_ok ws"
    "cycle_trace p s (i # is) = (IDLE, True) # transfer_cycles p ws"
    by blast
  with True show ?thesis by (intro exI [of _ ws] exI [of _ "[]"]) simp
next
  case False
  have c: "clk_counter s = 0" using assms(3) by (simp add: clk_cnt_done_def)
  note l = leave_IDLE [OF assms(1,2) c assms(4)]
  note b = transfer_words_bounds [OF assms(1), of s i]
  let ?s1 = "step p s i"
  let ?r = "run p ?s1 is"
  have k: "clk_counter ?s1 = clk_width p - 1"
    using assms c by (simp add: step_IDLE_go)
  have cl: "clocked p ?s1" using l(2,4) k by (simp add: clocked_def slow_def)
  have v: "list_all (\<lambda>t. fsm_state t \<noteq> IDLE) (visited p ?s1 is)" using assms(5) by simp
  have n: "fsm_state ?r \<noteq> IDLE" using False by simp
  have b1: "0 < transfer_words p s i" and b2: "transfer_words p s i \<le> channels p"
    using b by simp_all
  note inv = invariants_run [OF assms(1) b1 b2 l(1) cl v n]
  from transfer_can_complete [OF assms(1) b1 b2 inv [THEN conjunct1]
      clocked_bound [OF assms(1) inv [THEN conjunct2]]]
  obtain js where js: "list_all (\<lambda>t. fsm_state t \<noteq> IDLE) (visited p ?r js)"
    "fsm_state (run p ?r js) = IDLE"
    by blast
  have ne: "js \<noteq> []" using js(2) n by auto
  have "completes p s (i # (is @ js))"
    using v js by (simp add: completes_def visited_append run_append)
  from cycle_trace_complete [OF assms(1-4) this] obtain ws where ws:
    "length ws = transfer_words p s i" "waits_ok ws"
    "cycle_trace p s (i # (is @ js)) = (IDLE, True) # transfer_cycles p ws"
    by blast
  have "cycle_trace p s (i # (is @ js)) = cycle_trace p s (i # is) @ cycle_trace p ?r js"
    by (simp add: cycle_trace_append)
  moreover have "cycle_trace p ?r js \<noteq> []" using ne by (cases js) simp_all
  ultimately show ?thesis
    using ws False by (intro exI [of _ ws] exI [of _ "cycle_trace p ?r js"]) simp
qed

theorem chip_select_framing_witness:
  "valid ex_params \<and> fsm_state reset_state = IDLE \<and> clk_cnt_done reset_state \<and>
   start (req True False True 44) \<and>
   list_all (\<lambda>t. fsm_state t \<noteq> IDLE)
     (tl (visited ex_params reset_state
        (req True False True 44 # ex_word_inputs @ ex_word_inputs))) \<and>
   fsm_state (run ex_params reset_state
     (req True False True 44 # ex_word_inputs @ ex_word_inputs)) = IDLE \<and>
   (\<exists>ws. length ws = 2 \<and> waits_ok ws \<and>
      cycle_trace ex_params reset_state (req True False True 44 # ex_word_inputs @ ex_word_inputs)
        = (IDLE, True) # transfer_cycles ex_params ws) \<and>
   cycle_trace ex_params reset_state (req True False True 44 # ex_word_inputs @ ex_word_inputs)
     = (IDLE, True) # transfer_cycles ex_params [(1, 1), (1, 1)] \<and>
   list_all (\<lambda>t. fsm_state t \<noteq> IDLE)
     (tl (visited ex_params reset_state
        (req True False True 44 # replicate 5 (req False False True 0)))) \<and>
   (\<exists>ws rest. length ws = 2 \<and> waits_ok ws \<and> rest \<noteq> [] \<and>
      cycle_trace ex_params reset_state (req True False True 44 # replicate 5 (req False False True 0))
        @ rest = (IDLE, True) # transfer_cycles ex_params ws)"
proof -
  let ?i = "req True False True 44"
  let ?a = "ex_word_inputs @ ex_word_inputs"
  let ?b = "replicate 5 (req False False True 0)"
  have v: "valid ex_params" by (simp add: valid_iff ex_params_def)
  have s: "fsm_state reset_state = IDLE" "clk_cnt_done reset_state"
    by (simp_all add: reset_state_def clk_cnt_done_def)
  have i: "start ?i \<or> init ?i" by (simp add: req_def)
  have t: "transfer_words ex_params reset_state ?i = 2"
    by (simp add: transfer_words_def init_latch_def req_def reset_state_def ex_params_def)
  have va: "list_all (\<lambda>t. fsm_state t \<noteq> IDLE) (tl (visited ex_params reset_state (?i # ?a)))"
    by code_simp
  have ra: "fsm_state (run ex_params reset_state (?i # ?a)) = IDLE"
    by code_simp
  have vb: "list_all (\<lambda>t. fsm_state t \<noteq> IDLE) (tl (visited ex_params reset_state (?i # ?b)))"
    by code_simp
  have rb: "fsm_state (run ex_params reset_state (?i # ?b)) \<noteq> IDLE"
    by code_simp
  have ea: "cycle_trace ex_params reset_state (?i # ?a)
      = (IDLE, True) # transfer_cycles ex_params [(1, 1), (1, 1)]"
    by code_simp
  from chip_select_framing [OF v s i va, unfolded t] ra
  have a: "\<exists>ws. length ws = 2 \<and> waits_ok ws \<and>
      cycle_trace ex_params reset_state (?i # ?a) = (IDLE, True) # transfer_cycles ex_params ws"
    by auto
  from chip_select_framing [OF v s i vb, unfolded t] rb
  have b: "\<exists>ws rest. length ws = 2 \<and> waits_ok ws \<and> rest \<noteq> [] \<and>
      cycle_trace ex_params reset_state (?i # ?b) @ rest
        = (IDLE, True) # transfer_cycles ex_params ws"
    by blast
  have "start ?i" by (simp add: req_def)
  with v s va ra a ea vb b show ?thesis by blast
qed

end
